theory Spec2Isabelle
  imports Complex_Main "HOL-Library.Sublist" "HOL-Library.AList"
begin

section \<open>Python string primitives on ASCII text\<close>

text \<open>
  Strings are lists of characters. The model reads every character as an ASCII code
  point: case conversion touches the letters a-z and A-Z only, the whitespace of
  \<^verbatim>\<open>str.strip\<close> and \<^verbatim>\<open>str.split\<close> is the ASCII part of Python's
  whitespace (codes 9-13 and 28-32), and the word characters of the regular expressions
  are the ASCII letters, the digits and the underscore.
\<close>

definition ord :: "char \<Rightarrow> nat" where
  "ord c = of_char c"

definition is_space :: "char \<Rightarrow> bool" where
  "is_space c = ((9 \<le> ord c \<and> ord c \<le> 13) \<or> (28 \<le> ord c \<and> ord c \<le> 32))"

definition is_digit :: "char \<Rightarrow> bool" where
  "is_digit c = (48 \<le> ord c \<and> ord c \<le> 57)"

definition is_lower :: "char \<Rightarrow> bool" where
  "is_lower c = (97 \<le> ord c \<and> ord c \<le> 122)"

definition is_upper :: "char \<Rightarrow> bool" where
  "is_upper c = (65 \<le> ord c \<and> ord c \<le> 90)"

definition is_word :: "char \<Rightarrow> bool" where
  "is_word c = (is_digit c \<or> is_upper c \<or> is_lower c \<or> c = CHR ''_'')"

definition upper_char :: "char \<Rightarrow> char" where
  "upper_char c = (if is_lower c then char_of (ord c - 32) else c)"

definition lower_char :: "char \<Rightarrow> char" where
  "lower_char c = (if is_upper c then char_of (ord c + 32) else c)"

definition py_upper :: "string \<Rightarrow> string" where
  "py_upper s = map upper_char s"

definition py_lower :: "string \<Rightarrow> string" where
  "py_lower s = map lower_char s"

definition py_strip :: "string \<Rightarrow> string" where
  "py_strip s = rev (dropWhile is_space (rev (dropWhile is_space s)))"

text \<open>\<^verbatim>\<open>s.split()\<close>: the maximal runs of non-whitespace characters, in order.\<close>

function py_split :: "string \<Rightarrow> string list" where
  "py_split s =
     (let t = dropWhile is_space s
      in if t = [] then []
         else takeWhile (\<lambda>c. \<not> is_space c) t # py_split (dropWhile (\<lambda>c. \<not> is_space c) t))"
  by pat_completeness auto
termination
proof (relation "measure length")
  show "wf (measure length)" by simp
next
  fix s t :: string
  assume t: "t = dropWhile is_space s" and ne: "t \<noteq> []"
  from ne have "\<not> is_space (hd t)"
    unfolding t by (rule hd_dropWhile)
  with ne have "length (dropWhile (\<lambda>c. \<not> is_space c) t) < length t"
    by (cases t) (auto intro: le_imp_less_Suc length_dropWhile_le)
  also have "length t \<le> length s"
    unfolding t by (rule length_dropWhile_le)
  finally show "(dropWhile (\<lambda>c. \<not> is_space c) t, s) \<in> measure length" by simp
qed

declare py_split.simps [simp del]

text \<open>\<^verbatim>\<open>sep.join(parts)\<close>.\<close>

fun py_join :: "string \<Rightarrow> string list \<Rightarrow> string" where
  "py_join sep [] = []"
| "py_join sep [x] = x"
| "py_join sep (x # y # ys) = x @ sep @ py_join sep (y # ys)"

text \<open>\<^verbatim>\<open>a in b\<close> on strings: \<open>a\<close> occurs in \<open>b\<close> as a contiguous substring.\<close>

definition py_in :: "string \<Rightarrow> string \<Rightarrow> bool" where
  "py_in a b = sublist a b"

text \<open>\<^verbatim>\<open>s.isdigit()\<close>: non-empty and digits only.\<close>

definition py_isdigit :: "string \<Rightarrow> bool" where
  "py_isdigit s = (s \<noteq> [] \<and> list_all is_digit s)"

section \<open>Regular-expression substitution\<close>

text \<open>
  \<^verbatim>\<open>re.sub(pattern, repl, s)\<close> scans \<open>s\<close> from the left; wherever the pattern
  matches, the matched text is replaced and the scan resumes behind it, otherwise one
  character is copied. A pattern is given by its anchored matcher: from the flag
  "the preceding character is a word character" (all that \<^verbatim>\<open>\b\<close> needs to know of
  the text already scanned) and the remaining text, it returns the length of the match
  starting here. No pattern of this program matches the empty string; a zero length is
  treated as no match.
\<close>

type_synonym matcher = "bool \<Rightarrow> string \<Rightarrow> nat option"

function re_sub :: "matcher \<Rightarrow> string \<Rightarrow> bool \<Rightarrow> string \<Rightarrow> string" where
  "re_sub m repl prev [] = []"
| "re_sub m repl prev (c # cs) =
     (case m prev (c # cs) of
        None \<Rightarrow> c # re_sub m repl (is_word c) cs
      | Some n \<Rightarrow>
          if 0 < n
          then repl @ re_sub m repl (is_word (last (take n (c # cs)))) (drop n (c # cs))
          else c # re_sub m repl (is_word c) cs)"
  by pat_completeness auto
termination
  by (relation "measure (\<lambda>(m, repl, prev, s). length s)") auto

text \<open>\<^verbatim>\<open>\b\<close> between the preceding character and the remaining text.\<close>

definition word_boundary :: "bool \<Rightarrow> string \<Rightarrow> bool" where
  "word_boundary prev s = (prev \<noteq> (s \<noteq> [] \<and> is_word (hd s)))"

text \<open>\<^verbatim>\<open>\([^)]*\)\<close>: an opening parenthesis up to the first closing one behind it.\<close>

definition m_parens :: matcher where
  "m_parens prev s =
     (case s of
        [] \<Rightarrow> None
      | c # cs \<Rightarrow>
          if c = CHR ''('' \<and> CHR '')'' \<in> set cs
          then Some (length (takeWhile (\<lambda>x. x \<noteq> CHR '')'') cs) + 2)
          else None)"

text \<open>
  \<^verbatim>\<open>\bKW\.?\b\<close>: the keyword at a word boundary, then greedily an optional dot,
  then a word boundary again. With the dot taken, the final \<^verbatim>\<open>\b\<close> asks for a word
  character behind the dot; otherwise the engine backtracks to the match without the dot.
\<close>

definition m_abbrev :: "string \<Rightarrow> matcher" where
  "m_abbrev kw prev s =
     (if word_boundary prev s \<and> prefix kw s then
        let r = drop (length kw) s
        in if r \<noteq> [] \<and> hd r = CHR ''.'' \<and> word_boundary False (tl r)
           then Some (length kw + 1)
           else if word_boundary (is_word (last kw)) r then Some (length kw)
           else None
      else None)"

text \<open>\<^verbatim>\<open>\b(K1|K2|...)\b\<close>: the first alternative, in order, that matches as a whole word.\<close>

definition m_alt :: "string list \<Rightarrow> matcher" where
  "m_alt kws prev s =
     (if word_boundary prev s then
        (case filter (\<lambda>kw. prefix kw s \<and> word_boundary (is_word (last kw)) (drop (length kw) s)) kws of
           [] \<Rightarrow> None
         | kw # _ \<Rightarrow> Some (length kw))
      else None)"

text \<open>\<^verbatim>\<open>[$,]\<close>: one dollar sign or comma.\<close>

definition m_money :: matcher where
  "m_money prev s =
     (case s of
        [] \<Rightarrow> None
      | c # cs \<Rightarrow> if c = CHR ''$'' \<or> c = CHR '','' then Some 1 else None)"

section \<open>The name normalizer\<close>

definition clean_company_name :: "string option \<Rightarrow> string" where
  "clean_company_name name =
     (case name of
        None \<Rightarrow> []
      | Some n \<Rightarrow>
          if n = [] then []
          else
            let name = py_strip (py_upper n);
                cleaned = name;
                cleaned = re_sub m_parens [] False cleaned;
                cleaned = re_sub (m_abbrev ''CORP'') ''CORPORATION'' False cleaned;
                cleaned = re_sub (m_abbrev ''INC'') ''INC'' False cleaned;
                cleaned = re_sub (m_abbrev ''LLC'') ''LLC'' False cleaned;
                cleaned = re_sub (m_abbrev ''CO'') ''COMPANY'' False cleaned;
                cleaned = py_join '' '' (py_split cleaned)
            in py_strip cleaned)"

section \<open>Monetary values\<close>

text \<open>
  A Python float is modelled by the number it denotes: a finite value by the exact
  rational (the rounding of \<^verbatim>\<open>float\<close> to binary64 is not modelled), together with
  the two infinities and NaN, which \<^verbatim>\<open>float\<close> accepts by name.
\<close>

datatype pyfloat = Fin rat | PInf | NInf | NaN

datatype py_error = ValueError | KeyError

fun fadd :: "pyfloat \<Rightarrow> pyfloat \<Rightarrow> pyfloat" where
  "fadd (Fin a) (Fin b) = Fin (a + b)"
| "fadd NaN y = NaN"
| "fadd x NaN = NaN"
| "fadd PInf NInf = NaN"
| "fadd NInf PInf = NaN"
| "fadd PInf y = PInf"
| "fadd NInf y = NInf"
| "fadd x PInf = PInf"
| "fadd x NInf = NInf"

text \<open>\<^verbatim>\<open>x >= y\<close> on floats; every comparison with NaN is false.\<close>

fun fge :: "pyfloat \<Rightarrow> pyfloat \<Rightarrow> bool" where
  "fge (Fin a) (Fin b) = (b \<le> a)"
| "fge NaN y = False"
| "fge x NaN = False"
| "fge PInf y = True"
| "fge x NInf = True"
| "fge NInf y = False"
| "fge x PInf = False"

text \<open>
  \<^verbatim>\<open>float(s)\<close> on an ASCII string. Blanks (codes 9-13 and 32) are trimmed at both
  ends; then comes an optional sign and either a name (\<^verbatim>\<open>inf\<close>, \<^verbatim>\<open>infinity\<close>,
  \<^verbatim>\<open>nan\<close>, in any case) or a decimal number with an optional exponent. Digits may
  be grouped by single underscores. Anything else raises \<^verbatim>\<open>ValueError\<close>.
\<close>

definition is_blank :: "char \<Rightarrow> bool" where
  "is_blank c = ((9 \<le> ord c \<and> ord c \<le> 13) \<or> ord c = 32)"

definition digit_val :: "char \<Rightarrow> nat" where
  "digit_val c = ord c - 48"

text \<open>The longest prefix \<^verbatim>\<open>digit (["_"] digit)*\<close>: its digits and the text behind it.\<close>

fun more_digits :: "string \<Rightarrow> nat list \<times> string" where
  "more_digits [] = ([], [])"
| "more_digits [c] = (if is_digit c then ([digit_val c], []) else ([], [c]))"
| "more_digits (c # d # cs) =
     (if is_digit c then (case more_digits (d # cs) of (ds, r) \<Rightarrow> (digit_val c # ds, r))
      else if c = CHR ''_'' \<and> is_digit d then (case more_digits cs of (ds, r) \<Rightarrow> (digit_val d # ds, r))
      else ([], c # d # cs))"

definition digitpart :: "string \<Rightarrow> nat list \<times> string" where
  "digitpart s =
     (case s of
        [] \<Rightarrow> ([], [])
      | c # cs \<Rightarrow>
          if is_digit c then (case more_digits cs of (ds, r) \<Rightarrow> (digit_val c # ds, r))
          else ([], s))"

definition digits_nat :: "nat list \<Rightarrow> nat" where
  "digits_nat ds = foldl (\<lambda>a d. 10 * a + d) 0 ds"

definition scale10 :: "nat \<Rightarrow> int \<Rightarrow> rat" where
  "scale10 m e = (if 0 \<le> e then of_nat m * 10 ^ nat e else of_nat m / 10 ^ nat (- e))"

text \<open>The exponent part: empty, or \<^verbatim>\<open>e\<close>/\<^verbatim>\<open>E\<close>, an optional sign and a digit part.\<close>

definition exponent :: "string \<Rightarrow> int option" where
  "exponent s =
     (case s of
        [] \<Rightarrow> Some 0
      | c # cs \<Rightarrow>
          if c = CHR ''e'' \<or> c = CHR ''E'' then
            let neg = (cs \<noteq> [] \<and> hd cs = CHR ''-'');
                t = (if cs \<noteq> [] \<and> (hd cs = CHR ''+'' \<or> hd cs = CHR ''-'') then tl cs else cs)
            in (case digitpart t of
                  (ds, r) \<Rightarrow>
                    if ds \<noteq> [] \<and> r = []
                    then Some (if neg then - int (digits_nat ds) else int (digits_nat ds))
                    else None)
          else None)"

text \<open>A decimal number with optional exponent: its digits as a number and the power of ten.\<close>

definition floatnumber :: "string \<Rightarrow> (nat \<times> int) option" where
  "floatnumber s =
     (case digitpart s of
        (ip, r1) \<Rightarrow>
          if r1 \<noteq> [] \<and> hd r1 = CHR ''.'' then
            (case digitpart (tl r1) of
               (fp, r2) \<Rightarrow>
                 if ip = [] \<and> fp = [] then None
                 else (case exponent r2 of
                         None \<Rightarrow> None
                       | Some e \<Rightarrow> Some (digits_nat (ip @ fp), e - int (length fp))))
          else if ip = [] then None
          else (case exponent r1 of
                  None \<Rightarrow> None
                | Some e \<Rightarrow> Some (digits_nat ip, e)))"

text \<open>The text between the blanks, split into "has a minus sign" and what follows the sign.\<close>

definition sign_and_body :: "string \<Rightarrow> bool \<times> string" where
  "sign_and_body s =
     (let t = rev (dropWhile is_blank (rev (dropWhile is_blank s)))
      in (t \<noteq> [] \<and> hd t = CHR ''-'',
          if t \<noteq> [] \<and> (hd t = CHR ''+'' \<or> hd t = CHR ''-'') then tl t else t))"

definition py_float :: "string \<Rightarrow> py_error + pyfloat" where
  "py_float s =
     (case sign_and_body s of
        (neg, u) \<Rightarrow>
          if py_lower u = ''inf'' \<or> py_lower u = ''infinity'' then Inr (if neg then NInf else PInf)
          else if py_lower u = ''nan'' then Inr NaN
          else (case floatnumber u of
                  None \<Rightarrow> Inl ValueError
                | Some (m, e) \<Rightarrow> Inr (Fin (if neg then - scale10 m e else scale10 m e))))"

text \<open>
  \<^verbatim>\<open>parse_contract_value\<close>: a missing or empty string gives 0.0; otherwise the dollar
  signs and commas are removed and the rest goes to \<^verbatim>\<open>float\<close>, whose failure is
  caught and gives 0.0 as well.
\<close>

definition parse_contract_value :: "string option \<Rightarrow> py_error + pyfloat" where
  "parse_contract_value value_str =
     (case value_str of
        None \<Rightarrow> Inr (Fin 0)
      | Some v \<Rightarrow>
          if v = [] then Inr (Fin 0)
          else
            let cleaned = re_sub m_money [] False v
            in (case py_float cleaned of
                  Inr x \<Rightarrow> Inr x
                | Inl e \<Rightarrow> Inr (Fin 0)))"

definition determine_service_tier :: "pyfloat \<Rightarrow> string" where
  "determine_service_tier total_contract_value =
     (if fge total_contract_value (Fin 250000) then ''GUARDIAN''
      else if fge total_contract_value (Fin 100000) then ''ASSURE''
      else ''CORE'')"

section \<open>Customers, contracts and rows\<close>

text \<open>
  A CSV row is the dictionary \<^verbatim>\<open>csv.DictReader\<close> yields: column name to cell text.
  \<^verbatim>\<open>row.get(key, default)\<close> gives the default for a column the file does not have.
\<close>

type_synonym row = "string \<rightharpoonup> string"

definition row_get :: "row \<Rightarrow> string \<Rightarrow> string \<Rightarrow> string" where
  "row_get r key dflt = (case r key of None \<Rightarrow> dflt | Some v \<Rightarrow> v)"

record contract =
  contract_id :: string
  customer_name_in_contract :: string
  contract_name :: string
  contract_number :: string
  contract_value :: pyfloat
  contract_status :: string
  start_date :: "string option"
  end_date :: "string option"
  contract_email :: string
  contract_notes :: string
  matched_customer_id :: "string option"

record customer =
  simpro_customer_id :: string
  company_name :: string
  company_name_cleaned :: string
  email :: string
  mailing_address :: string
  mailing_city :: string
  mailing_state :: string
  mailing_zip :: string
  labor_tax_code :: string
  part_tax_code :: string
  is_contract_customer :: bool
  contracts :: "contract list"
  total_contract_value :: pyfloat
  active_contract_count :: nat
  has_active_contracts :: bool
  service_tier :: string
  latest_contract_email :: string

text \<open>
  Both dictionaries of the program are association lists in insertion order, the order
  in which Python iterates a dict; \<^const>\<open>AList.update\<close> overwrites the value of a
  key that is present where it stands and appends a new key at the end, as an assignment
  \<^verbatim>\<open>d[k] = v\<close> does.
\<close>

type_synonym customers = "(string \<times> customer) list"

type_synonym name_map = "(string \<times> string) list"

section \<open>Loading customers and building the name index\<close>

definition load_customer_row :: "customers \<times> name_map \<Rightarrow> row \<Rightarrow> customers \<times> name_map" where
  "load_customer_row st r =
     (case st of
        (customers, customer_name_map) \<Rightarrow>
          let customer_id = py_strip (row_get r ''Customer ID'' []);
              company_name' = py_strip (row_get r ''Customer'' [])
          in if customer_id = [] \<or> company_name' = [] then st
             else
               let customer = \<lparr>
                     simpro_customer_id = customer_id,
                     company_name = company_name',
                     company_name_cleaned = clean_company_name (Some company_name'),
                     email = py_lower (py_strip (row_get r ''Email'' [])),
                     mailing_address = py_strip (row_get r ''Mailing Address'' []),
                     mailing_city = py_strip (row_get r ''Mailing City'' []),
                     mailing_state = py_strip (row_get r ''Mailing State'' []),
                     mailing_zip = py_strip (row_get r ''Mailing ZIP Code'' []),
                     labor_tax_code = py_strip (row_get r ''Labor Tax Code'' []),
                     part_tax_code = py_strip (row_get r ''Part Tax Code'' []),
                     is_contract_customer =
                       (py_lower (py_strip (row_get r ''Contract Customer'' [])) = ''yes''),
                     contracts = [],
                     total_contract_value = Fin 0,
                     active_contract_count = 0,
                     has_active_contracts = False,
                     service_tier = ''CORE'',
                     latest_contract_email = [] \<rparr>;
                   cleaned_name = clean_company_name (Some company_name')
               in (AList.update customer_id customer customers,
                   AList.update cleaned_name customer_id customer_name_map))"

definition load_customers :: "row list \<Rightarrow> customers \<times> name_map" where
  "load_customers rows = foldl load_customer_row ([], []) rows"

section \<open>Matching a contract to a customer\<close>

definition legal_suffixes :: "string list" where
  "legal_suffixes = [''LLC'', ''INC'', ''CORPORATION'', ''COMPANY'', ''CORP'']"

definition strip_suffixes :: "string \<Rightarrow> string" where
  "strip_suffixes s = py_strip (re_sub (m_alt legal_suffixes) [] False s)"

text \<open>
  The scan over the index when the exact lookup has failed: per candidate first the
  containment test, then the comparison with the legal suffixes removed; the first
  candidate that passes either ends the scan.
\<close>

fun fuzzy_scan :: "string \<Rightarrow> name_map \<Rightarrow> string option" where
  "fuzzy_scan cleaned_name [] = None"
| "fuzzy_scan cleaned_name ((stored_name, cust_id) # rest) =
     (if length cleaned_name > 10 \<and> length stored_name > 10
         \<and> (py_in cleaned_name stored_name \<or> py_in stored_name cleaned_name)
      then Some cust_id
      else
        let cleaned_stripped = strip_suffixes cleaned_name;
            stored_stripped = strip_suffixes stored_name
        in if cleaned_stripped \<noteq> [] \<and> stored_stripped \<noteq> []
              \<and> cleaned_stripped = stored_stripped
           then Some cust_id
           else fuzzy_scan cleaned_name rest)"

definition match_customer :: "name_map \<Rightarrow> string \<Rightarrow> string option" where
  "match_customer customer_name_map customer_name =
     (let cleaned_name = clean_company_name (Some customer_name)
      in case map_of customer_name_map cleaned_name of
           Some cust_id \<Rightarrow> Some cust_id
         | None \<Rightarrow> fuzzy_scan cleaned_name customer_name_map)"

section \<open>Loading contracts and aggregating\<close>

text \<open>
  The state of the loop over the contract rows. The identifiers come from
  \<^verbatim>\<open>uuid.uuid4\<close> and the dates from \<^verbatim>\<open>parse_date\<close>; both are parameters here:
  \<open>uuid4 n\<close> is the identifier drawn for the contract created after \<open>n\<close> others.
\<close>

record match_state =
  st_customers :: customers
  st_contracts :: "contract list"
  st_unmatched :: "(string \<times> string \<times> pyfloat) list"
  st_matched_count :: nat

definition skip_row :: "string \<Rightarrow> string \<Rightarrow> bool" where
  "skip_row customer_name contract_name' =
     (customer_name = [] \<or> contract_name' = []
      \<or> customer_name \<in> set [''SMA Included'', ''UNL RS'', ''Monthly'', ''Quarterly'', ''Weekly'']
      \<or> py_isdigit customer_name
      \<or> py_in ''Selected Criteria'' customer_name)"

definition truthy :: "string option \<Rightarrow> bool" where
  "truthy v = (case v of None \<Rightarrow> False | Some s \<Rightarrow> s \<noteq> [])"

definition attach_contract :: "customer \<Rightarrow> contract \<Rightarrow> customer" where
  "attach_contract c k =
     (let c = c\<lparr>contracts := contracts c @ [k]\<rparr>
      in if contract_status k = ''active''
         then
           let c = c\<lparr>has_active_contracts := True\<rparr>;
               c = c\<lparr>active_contract_count := active_contract_count c + 1\<rparr>;
               c = c\<lparr>total_contract_value := fadd (total_contract_value c) (contract_value k)\<rparr>
           in if contract_email k \<noteq> [] then c\<lparr>latest_contract_email := contract_email k\<rparr> else c
         else c)"

definition process_row ::
  "(nat \<Rightarrow> string) \<Rightarrow> (string \<Rightarrow> string option) \<Rightarrow> name_map \<Rightarrow> match_state \<Rightarrow> row
     \<Rightarrow> py_error + match_state" where
  "process_row uuid4 parse_date customer_name_map st r =
     (let customer_name = py_strip (row_get r ''Customer'' []);
          contract_name' = py_strip (row_get r ''Contract Name'' [])
      in if skip_row customer_name contract_name' then Inr st
         else
           let matched_customer_id' = match_customer customer_name_map customer_name
           in case parse_contract_value (Some (row_get r ''Value'' ''0'')) of
                Inl e \<Rightarrow> Inl e
              | Inr contract_value' \<Rightarrow>
                  let contract_status' = py_strip (row_get r ''Status'' []);
                      contract' = \<lparr>
                        contract_id = uuid4 (length (st_contracts st)),
                        customer_name_in_contract = customer_name,
                        contract_name = contract_name',
                        contract_number = py_strip (row_get r ''Contract No.'' []),
                        contract_value = contract_value',
                        contract_status =
                          (if py_lower contract_status' = ''active'' then ''active'' else ''expired''),
                        start_date = parse_date (row_get r ''Start Date'' []),
                        end_date = parse_date (row_get r ''End Date'' []),
                        contract_email = py_lower (py_strip (row_get r ''Email'' [])),
                        contract_notes = py_strip (row_get r ''Notes'' []),
                        matched_customer_id = matched_customer_id' \<rparr>;
                      st = st\<lparr>st_contracts := st_contracts st @ [contract']\<rparr>
                  in if truthy matched_customer_id'
                     then
                       (case map_of (st_customers st) (the matched_customer_id') of
                          None \<Rightarrow> Inl KeyError
                        | Some customer \<Rightarrow>
                            Inr (st\<lparr>st_matched_count := st_matched_count st + 1,
                                    st_customers :=
                                      AList.update (the matched_customer_id')
                                        (attach_contract customer contract') (st_customers st)\<rparr>))
                     else
                       Inr (st\<lparr>st_unmatched :=
                                 st_unmatched st @ [(customer_name, contract_name', contract_value')]\<rparr>))"

fun process_rows ::
  "(nat \<Rightarrow> string) \<Rightarrow> (string \<Rightarrow> string option) \<Rightarrow> name_map \<Rightarrow> match_state \<Rightarrow> row list
     \<Rightarrow> py_error + match_state" where
  "process_rows uuid4 parse_date customer_name_map st [] = Inr st"
| "process_rows uuid4 parse_date customer_name_map st (r # rs) =
     (case process_row uuid4 parse_date customer_name_map st r of
        Inl e \<Rightarrow> Inl e
      | Inr st' \<Rightarrow> process_rows uuid4 parse_date customer_name_map st' rs)"

definition update_tier :: "customer \<Rightarrow> customer" where
  "update_tier c = c\<lparr>service_tier := determine_service_tier (total_contract_value c)\<rparr>"

text \<open>
  \<^verbatim>\<open>load_and_match_contracts\<close> returns the contracts and has updated the customers
  in place; the model returns both.
\<close>

definition load_and_match_contracts ::
  "(nat \<Rightarrow> string) \<Rightarrow> (string \<Rightarrow> string option) \<Rightarrow> customers \<Rightarrow> name_map \<Rightarrow> row list
     \<Rightarrow> py_error + (customers \<times> contract list)" where
  "load_and_match_contracts uuid4 parse_date customers customer_name_map rows =
     (case process_rows uuid4 parse_date customer_name_map
             \<lparr>st_customers = customers, st_contracts = [], st_unmatched = [], st_matched_count = 0\<rparr>
             rows of
        Inl e \<Rightarrow> Inl e
      | Inr st \<Rightarrow> Inr (map (\<lambda>(cid, c). (cid, update_tier c)) (st_customers st), st_contracts st))"

text \<open>The two loading steps of \<^verbatim>\<open>main\<close>.\<close>

definition run ::
  "(nat \<Rightarrow> string) \<Rightarrow> (string \<Rightarrow> string option) \<Rightarrow> row list \<Rightarrow> row list
     \<Rightarrow> py_error + (customers \<times> contract list)" where
  "run uuid4 parse_date customer_rows contract_rows =
     (case load_customers customer_rows of
        (customers, customer_name_map) \<Rightarrow>
          load_and_match_contracts uuid4 parse_date customers customer_name_map contract_rows)"

section \<open>Aggregates and invariants\<close>

text \<open>
  The sum of the values of the active contracts of a collection, added from 0 in the
  order of the collection, as \<^verbatim>\<open>sum\<close> does.
\<close>

definition sum_active_values :: "contract list \<Rightarrow> pyfloat" where
  "sum_active_values ks =
     foldl fadd (Fin 0) (map contract_value (filter (\<lambda>k. contract_status k = ''active'') ks))"

text \<open>
  What holds of the customer set and the name index while the customers are loaded:
  the index points into the customer set, no key is empty or repeated, and no customer
  has a contract yet.
\<close>

definition index_ok :: "customers \<times> name_map \<Rightarrow> bool" where
  "index_ok st =
     (snd ` set (snd st) \<subseteq> fst ` set (fst st)
      \<and> [] \<notin> fst ` set (fst st)
      \<and> distinct (map fst (fst st))
      \<and> (\<forall>cid c. map_of (fst st) cid = Some c \<longrightarrow>
            contracts c = [] \<and> total_contract_value c = Fin 0))"

text \<open>
  What holds while the contracts are matched: every link of a contract leads to a
  customer, and a customer's collection holds the contracts linked to it, in order,
  with the total of the active ones.
\<close>

definition links_ok :: "name_map \<Rightarrow> match_state \<Rightarrow> bool" where
  "links_ok m st =
     (snd ` set m \<subseteq> fst ` set (st_customers st)
      \<and> [] \<notin> fst ` set (st_customers st)
      \<and> distinct (map fst (st_customers st))
      \<and> (\<forall>k \<in> set (st_contracts st). \<forall>cid. matched_customer_id k = Some cid \<longrightarrow>
            cid \<in> fst ` set (st_customers st))
      \<and> (\<forall>cid c. map_of (st_customers st) cid = Some c \<longrightarrow>
            contracts c = filter (\<lambda>k. matched_customer_id k = Some cid) (st_contracts st)
            \<and> total_contract_value c = sum_active_values (contracts c)))"

section \<open>The word structure of a name\<close>

text \<open>
  The abbreviation patterns look at a string word by word, a word being a maximal run of
  word characters. \<open>hit False k prev s\<close> says that \<open>s\<close> begins with the whole word
  \<open>k\<close> and that no word character precedes it; \<open>hit True k prev s\<close> says moreover
  that a dot and a word character follow, the one case where the pattern takes the dot.
  \<open>always P prev s\<close> states \<open>P\<close> at every position of \<open>s\<close>, each with the flag
  of the character before it.
\<close>

definition dotnext :: "string \<Rightarrow> bool" where
  "dotnext t = (case t of c # w # u \<Rightarrow> c = CHR ''.'' \<and> is_word w | _ \<Rightarrow> False)"

definition hit :: "bool \<Rightarrow> string \<Rightarrow> bool \<Rightarrow> string \<Rightarrow> bool" where
  "hit dot k prev s =
     (\<not> prev \<and> takeWhile is_word s = k \<and> (dot \<longrightarrow> dotnext (dropWhile is_word s)))"

fun always :: "(bool \<Rightarrow> string \<Rightarrow> bool) \<Rightarrow> bool \<Rightarrow> string \<Rightarrow> bool" where
  "always P prev [] = True"
| "always P prev (c # cs) = (P prev (c # cs) \<and> always P (is_word c) cs)"

definition wordy :: "string \<Rightarrow> bool" where
  "wordy k = (k \<noteq> [] \<and> list_all is_word k)"

text \<open>No opening parenthesis has a closing one behind it.\<close>

fun no_pair :: "string \<Rightarrow> bool" where
  "no_pair [] = True"
| "no_pair (c # cs) = ((c = CHR ''('' \<longrightarrow> CHR '')'' \<notin> set cs) \<and> no_pair cs)"

definition paren :: "char \<Rightarrow> bool" where
  "paren c = (c = CHR ''('' \<or> c = CHR '')'')"

text \<open>The whitespace step of the normalizer, \<^verbatim>\<open>' '.join(s.split())\<close>.\<close>

definition squeeze :: "string \<Rightarrow> string" where
  "squeeze s = py_join '' '' (py_split s)"

section \<open>Example data\<close>

definition example_customer_1 :: row where
  "example_customer_1 = map_of [(''Customer ID'', ''C1''), (''Customer'', ''Acme Corp'')]"

definition example_customer_2 :: row where
  "example_customer_2 = map_of [(''Customer ID'', ''C2''), (''Customer'', '' ACME Corporation '')]"

definition example_customer_3 :: row where
  "example_customer_3 = map_of [(''Customer ID'', ''C3''), (''Customer'', ''Other (old) Inc'')]"

definition example_customers :: "row list" where
  "example_customers = [example_customer_1, example_customer_2, example_customer_3]"

definition example_contract_1 :: row where
  "example_contract_1 =
     map_of [(''Customer'', ''Acme corp''), (''Contract Name'', ''K1''), (''Value'', ''$7''),
             (''Status'', '' ACTIVE '')]"

definition example_contract_2 :: row where
  "example_contract_2 =
     map_of [(''Customer'', ''ACME CORPORATION''), (''Contract Name'', ''K2''), (''Value'', ''5''),
             (''Status'', ''Pending'')]"

definition example_contract_3 :: row where
  "example_contract_3 =
     map_of [(''Customer'', ''Nobody''), (''Contract Name'', ''K3''), (''Value'', ''3''),
             (''Status'', ''Active'')]"

definition example_contracts :: "row list" where
  "example_contracts = [example_contract_1, example_contract_2, example_contract_3]"

definition example_run :: "py_error + (customers \<times> contract list)" where
  "example_run = run (\<lambda>n. ''u'') (\<lambda>s. None) example_customers example_contracts"

definition empty_state :: match_state where
  "empty_state = \<lparr>st_customers = [], st_contracts = [], st_unmatched = [], st_matched_count = 0\<rparr>"

section \<open>The normalizer: the dotted abbreviations\<close>

text \<open>
  Claim C1 says that the dotted abbreviation \<^verbatim>\<open>CORP.\<close> is expanded to
  \<^verbatim>\<open>CORPORATION\<close>, like \<^verbatim>\<open>CORP\<close>. At the end of a name, or before a
  blank, the pattern matches \<^verbatim>\<open>CORP\<close> only and the dot stays, so that the two
  spellings of a name get different keys.
\<close>

theorem clean_company_name_dotted_suffix:
  "clean_company_name (Some ''Acme Corp.'') = ''ACME CORPORATION.''
   \<and> clean_company_name (Some ''Acme Corp'') = ''ACME CORPORATION''"
  by (rule conjI; code_simp)

section \<open>The normalizer is idempotent\<close>

lemma dot_not_word: "\<not> is_word CHR ''.''"
  by (simp add: is_word_def is_digit_def is_upper_def is_lower_def ord_def)

lemma takeWhile_word_prefix:
  assumes "prefix k s" "list_all is_word k"
    and "drop (length k) s = [] \<or> \<not> is_word (hd (drop (length k) s))"
  shows "takeWhile is_word s = k \<and> dropWhile is_word s = drop (length k) s"
proof -
  from assms(1) obtain r where s: "s = k @ r" by (auto simp: prefix_def)
  with assms(3) have "r = [] \<or> \<not> is_word (hd r)" by simp
  then have "takeWhile is_word r = [] \<and> dropWhile is_word r = r" by (cases r) auto
  with assms(2) show ?thesis
    by (simp add: s list_all_iff takeWhile_append2 dropWhile_append2)
qed

lemma m_abbrev_hit:
  assumes "k \<noteq> []" "list_all is_word k"
  shows "m_abbrev k p s =
           (if hit True k p s then Some (length k + 1)
            else if hit False k p s then Some (length k) else None)"
proof (cases "prefix k s")
  case False
  have "takeWhile is_word s \<noteq> k"
  proof
    assume "takeWhile is_word s = k"
    then have "prefix k s" by (metis takeWhile_dropWhile_id prefixI)
    with False show False ..
  qed
  with False show ?thesis by (simp add: m_abbrev_def hit_def)
next
  case True
  then obtain r where s: "s = k @ r" by (auto simp: prefix_def)
  from assms have hd: "s \<noteq> []" "is_word (hd s)"
    by (cases k; simp add: s)+
  then have wb: "word_boundary p s = (\<not> p)"
    by (auto simp: word_boundary_def)
  from assms(2) have tw: "takeWhile is_word s = k @ takeWhile is_word r"
    and dw: "dropWhile is_word s = dropWhile is_word r"
    by (simp_all add: s list_all_iff takeWhile_append2 dropWhile_append2)
  from assms have lw: "is_word (last k)"
    by (simp add: list_all_iff)
  have d1: "(r \<noteq> [] \<and> hd r = CHR ''.'' \<and> word_boundary False (tl r)) = dotnext r"
    by (cases r; cases "tl r") (auto simp: dotnext_def word_boundary_def)
  have d2: "word_boundary (is_word (last k)) r = (r = [] \<or> \<not> is_word (hd r))"
    using lw by (auto simp: word_boundary_def)
  have f1: "(takeWhile is_word s = k) = (r = [] \<or> \<not> is_word (hd r))"
    unfolding tw by (cases r) auto
  have f2: "dropWhile is_word s = r" if "r = [] \<or> \<not> is_word (hd r)"
    unfolding dw using that by (cases r) auto
  have f3: "r = [] \<or> \<not> is_word (hd r)" if "dotnext r"
    using that by (cases r) (auto simp: dotnext_def dot_not_word split: list.splits)
  have dr: "drop (length k) s = r"
    by (simp add: s)
  have m: "m_abbrev k p s =
          (if \<not> p then (if dotnext r then Some (length k + 1)
                        else if r = [] \<or> \<not> is_word (hd r) then Some (length k) else None)
           else None)"
    unfolding m_abbrev_def Let_def dr d1 d2 wb using True by simp
  have h1: "hit True k p s = (\<not> p \<and> dotnext r)"
  proof (cases "r = [] \<or> \<not> is_word (hd r)")
    case True
    then show ?thesis unfolding hit_def f1 f2 [OF True] by simp
  next
    case False
    with f3 have "\<not> dotnext r" by blast
    with False show ?thesis unfolding hit_def f1 by simp
  qed
  have h2: "hit False k p s = (\<not> p \<and> (r = [] \<or> \<not> is_word (hd r)))"
    unfolding hit_def f1 by simp
  show ?thesis unfolding m h1 h2 by simp
qed

lemma re_sub_unfold:
  "s \<noteq> [] \<Longrightarrow>
   re_sub m r p s =
     (case m p s of
        None \<Rightarrow> hd s # re_sub m r (is_word (hd s)) (tl s)
      | Some n \<Rightarrow>
          if 0 < n then r @ re_sub m r (is_word (last (take n s))) (drop n s)
          else hd s # re_sub m r (is_word (hd s)) (tl s))"
  by (cases s) (auto split: option.splits)

lemma hit_nonword: "k \<noteq> [] \<Longrightarrow> \<not> is_word d \<Longrightarrow> \<not> hit dot k p (d # t)"
  by (auto simp: hit_def)

lemma hit_Nil: "k \<noteq> [] \<Longrightarrow> \<not> hit dot k p []"
  by (auto simp: hit_def)

lemma hit_True_False: "hit True k p s \<Longrightarrow> hit False k p s"
  by (simp add: hit_def)

lemma hit_flag: "hit dot k p s \<Longrightarrow> \<not> p"
  by (simp add: hit_def)

lemma re_sub_nonword:
  assumes "wordy k" "\<not> is_word d"
  shows "re_sub (m_abbrev k) r p (d # t) = d # re_sub (m_abbrev k) r False t"
proof -
  from assms have "m_abbrev k p (d # t) = None"
    by (simp add: m_abbrev_hit wordy_def hit_nonword)
  with assms(2) show ?thesis by simp
qed

lemma re_sub_copy:
  assumes "wordy k" "s \<noteq> []" "is_word (hd s)" "\<not> hit False k p s"
  shows "re_sub (m_abbrev k) r p s
           = takeWhile is_word s @ re_sub (m_abbrev k) r True (dropWhile is_word s)"
  using assms(2-)
proof (induction s arbitrary: p)
  case Nil
  then show ?case by simp
next
  case (Cons c cs)
  from Cons.prems have c: "is_word c" by simp
  from Cons.prems hit_True_False have "m_abbrev k p (c # cs) = None"
    using assms(1) by (auto simp: m_abbrev_hit wordy_def)
  with c have 1: "re_sub (m_abbrev k) r p (c # cs) = c # re_sub (m_abbrev k) r True cs"
    by simp
  show ?case
  proof (cases "cs \<noteq> [] \<and> is_word (hd cs)")
    case True
    have "\<not> hit False k True cs" by (simp add: hit_def)
    with True Cons.IH [of True]
    have "re_sub (m_abbrev k) r True cs
           = takeWhile is_word cs @ re_sub (m_abbrev k) r True (dropWhile is_word cs)"
      by simp
    with 1 c show ?thesis by simp
  next
    case False
    then have "takeWhile is_word cs = [] \<and> dropWhile is_word cs = cs"
      by (cases cs) auto
    with 1 c show ?thesis by simp
  qed
qed

lemma hit_split:
  assumes "hit dot k p s"
  shows "s = k @ dropWhile is_word s"
  using assms takeWhile_dropWhile_id [of is_word s] by (simp add: hit_def)

lemma re_sub_dot:
  assumes "wordy k" "hit True k p s"
  shows "re_sub (m_abbrev k) r p s = r @ re_sub (m_abbrev k) r False (tl (dropWhile is_word s))"
proof -
  from assms(2) obtain w u where a: "dropWhile is_word s = CHR ''.'' # w # u"
    by (auto simp: hit_def dotnext_def split: list.splits)
  with hit_split [OF assms(2)] have s: "s = k @ CHR ''.'' # w # u" by simp
  from assms(1) have ne: "s \<noteq> []" by (simp add: s)
  from assms have m: "m_abbrev k p s = Some (length k + 1)"
    by (simp add: m_abbrev_hit wordy_def)
  have t: "take (Suc (length k)) s = k @ [CHR ''.'']" and d: "drop (Suc (length k)) s = w # u"
    by (simp_all add: s)
  show ?thesis
    unfolding re_sub_unfold [OF ne] m a by (simp add: t d dot_not_word del: re_sub.simps)
qed

lemma re_sub_plain:
  assumes "wordy k" "hit False k p s" "\<not> hit True k p s"
  shows "re_sub (m_abbrev k) r p s = r @ re_sub (m_abbrev k) r True (dropWhile is_word s)"
proof -
  define a where "a = dropWhile is_word s"
  then have a: "dropWhile is_word s = a" by simp
  from hit_split [OF assms(2)] have s: "s = k @ a" by (simp add: a)
  from assms(1) have ne: "s \<noteq> []" by (simp add: s wordy_def)
  from assms have m: "m_abbrev k p s = Some (length k)"
    by (simp add: m_abbrev_hit wordy_def)
  have t: "take (length k) s = k" and d: "drop (length k) s = a"
    by (simp_all add: s)
  from assms(1) have "is_word (last k)" "0 < length k"
    by (simp_all add: wordy_def list_all_iff)
  then show ?thesis
    unfolding re_sub_unfold [OF ne] m a by (simp add: t d del: re_sub.simps)
qed

lemma re_sub_head:
  assumes "wordy k" "wordy r"
  shows "(re_sub (m_abbrev k) r p s = [] \<longleftrightarrow> s = [])
       \<and> (s \<noteq> [] \<longrightarrow> is_word (hd (re_sub (m_abbrev k) r p s)) = is_word (hd s))"
proof (cases s)
  case Nil
  then show ?thesis by simp
next
  case (Cons c cs)
  from assms(2) have r: "r \<noteq> []" "is_word (hd r)"
    by (cases r; simp add: wordy_def)+
  show ?thesis
  proof (cases "is_word c")
    case False
    with re_sub_nonword [OF assms(1) False] Cons show ?thesis by simp
  next
    case True
    consider "hit True k p s" | "hit False k p s" "\<not> hit True k p s" | "\<not> hit False k p s"
      by blast
    then show ?thesis
    proof cases
      case 1
      from re_sub_dot [OF assms(1) 1] r True Cons show ?thesis by simp
    next
      case 2
      from re_sub_plain [OF assms(1) 2] r True Cons show ?thesis by simp
    next
      case 3
      from Cons True have "s \<noteq> []" "is_word (hd s)" by simp_all
      from re_sub_copy [OF assms(1) this 3] True Cons show ?thesis by simp
    qed
  qed
qed

lemma re_sub_dotnext:
  assumes "wordy k" "wordy r" "a = [] \<or> \<not> is_word (hd a)"
  shows "dotnext (re_sub (m_abbrev k) r p a) = dotnext a"
proof (cases a)
  case Nil
  then show ?thesis by simp
next
  case (Cons d t)
  with assms(3) have d: "\<not> is_word d" by simp
  from re_sub_head [OF assms(1,2), of False t]
  have "(re_sub (m_abbrev k) r False t = [] \<longleftrightarrow> t = [])"
    and "t \<noteq> [] \<Longrightarrow> is_word (hd (re_sub (m_abbrev k) r False t)) = is_word (hd t)"
    by simp_all
  then have "dotnext (d # re_sub (m_abbrev k) r False t) = dotnext (d # t)"
    by (cases t; cases "re_sub (m_abbrev k) r False t") (auto simp: dotnext_def)
  with re_sub_nonword [OF assms(1) d] Cons show ?thesis by simp
qed

lemma always_flag:
  assumes "\<And>t. P True t" "always P False s"
  shows "always P p s"
  using assms by (cases s; cases p) simp_all

lemma always_word_run:
  assumes "\<And>t. P True t" "w \<noteq> []" "list_all is_word w"
  shows "always P p (w @ v) = (P p (w @ v) \<and> always P True v)"
  using assms(2,3)
proof (induction w arbitrary: p)
  case Nil
  then show ?case by simp
next
  case (Cons c w)
  show ?case
  proof (cases w)
    case Nil
    with Cons.prems show ?thesis by simp
  next
    case (Cons c' w')
    with Cons.prems Cons.IH [of True] assms(1) show ?thesis by simp
  qed
qed

lemma word_run_split:
  assumes "list_all is_word w" "x = [] \<or> \<not> is_word (hd x)"
  shows "takeWhile is_word (w @ x) = w" "dropWhile is_word (w @ x) = x"
proof -
  from assms(2) have "takeWhile is_word x = [] \<and> dropWhile is_word x = x"
    by (cases x) auto
  with assms(1) show "takeWhile is_word (w @ x) = w" "dropWhile is_word (w @ x) = x"
    by (simp_all add: list_all_iff takeWhile_append2 dropWhile_append2)
qed

lemma hit_word_run:
  assumes "list_all is_word w" "x = [] \<or> \<not> is_word (hd x)"
  shows "hit dot k p (w @ x) = (\<not> p \<and> w = k \<and> (dot \<longrightarrow> dotnext x))"
  by (simp add: hit_def word_run_split [OF assms])

lemma first_word:
  assumes "s \<noteq> []" "is_word (hd s)"
  obtains w a where "s = w @ a" "w \<noteq> []" "list_all is_word w" "a = [] \<or> \<not> is_word (hd a)"
    "length a < length s" "takeWhile is_word s = w" "dropWhile is_word s = a"
proof -
  let ?w = "takeWhile is_word s" and ?a = "dropWhile is_word s"
  have 1: "s = ?w @ ?a" by simp
  from assms have 2: "?w \<noteq> []" by (cases s) auto
  have 3: "list_all is_word ?w"
    by (auto simp: list_all_iff dest: set_takeWhileD)
  have 4: "?a = [] \<or> \<not> is_word (hd ?a)"
    using hd_dropWhile [of is_word s] by blast
  from 2 have 5: "length ?a < length s"
    using arg_cong [OF 1, of length] by (cases ?w) auto
  from that [OF 1 2 3 4 5] show ?thesis by simp
qed

lemma always_re_sub:
  assumes k2: "wordy k2" and r2: "wordy r2" and k1: "k1 \<noteq> []"
    and cond: "if dot then \<not> strict_prefix r2 k1 else \<not> prefix r2 k1"
    and H: "always (\<lambda>p t. \<not> hit False k2 p t \<longrightarrow> \<not> hit dot k1 p t) p s"
  shows "always (\<lambda>p t. \<not> hit dot k1 p t) p (re_sub (m_abbrev k2) r2 p s)"
  using H
proof (induction s arbitrary: p rule: length_induct)
  case (1 s)
  let ?R = "re_sub (m_abbrev k2) r2"
  let ?T = "\<lambda>p t. \<not> hit dot k1 p t"
  let ?H = "\<lambda>p t. \<not> hit False k2 p t \<longrightarrow> \<not> hit dot k1 p t"
  have T: "?T True t" for t by (simp add: hit_def)
  have HT: "?H True t" for t by (simp add: hit_def)
  from r2 have r2w: "r2 \<noteq> []" "list_all is_word r2" by (simp_all add: wordy_def)
  from cond have nsp: "\<not> strict_prefix r2 k1" by (auto split: if_splits)
  note IH = 1(1) [rule_format]
  show ?case
  proof (cases s)
    case Nil
    then show ?thesis by simp
  next
    case (Cons c cs)
    show ?thesis
    proof (cases "is_word c")
      case False
      from 1(2) Cons have "always ?H False cs" by (simp add: False)
      with IH [of cs False] Cons have "always ?T False (?R False cs)" by simp
      with re_sub_nonword [OF k2 False] hit_nonword [OF k1 False] Cons False
      show ?thesis by simp
    next
      case True
      with Cons have "s \<noteq> []" "is_word (hd s)" by simp_all
      then obtain w a where s: "s = w @ a" and w: "w \<noteq> []" "list_all is_word w"
        and a: "a = [] \<or> \<not> is_word (hd a)" and len: "length a < length s"
        and tw: "takeWhile is_word s = w" and dw: "dropWhile is_word s = a"
        by (rule first_word)
      from 1(2) have Hs: "?H p s" and Ha: "always ?H True a"
        using always_word_run [of ?H w p a, OF HT w] unfolding s by blast+
      have oa: "?R q a = [] \<or> \<not> is_word (hd (?R q a))" for q
        using re_sub_head [OF k2 r2, of q a] a by blast
      have dn: "dotnext (?R q a) = dotnext a" for q
        by (rule re_sub_dotnext [OF k2 r2 a])
      from IH [OF len Ha] have Ta: "always ?T True (?R True a)" .
      consider (dot) "hit True k2 p s" | (plain) "hit False k2 p s" "\<not> hit True k2 p s"
        | (none) "\<not> hit False k2 p s"
        by blast
      then show ?thesis
      proof cases
        case none
        from \<open>s \<noteq> []\<close> \<open>is_word (hd s)\<close> none
        have out: "?R p s = w @ ?R True a"
          using re_sub_copy [OF k2, of s p r2] by (simp add: tw dw)
        from Hs none have "\<not> hit dot k1 p s" by simp
        then have "\<not> hit dot k1 p (w @ ?R True a)"
          unfolding s hit_word_run [OF w(2) a] hit_word_run [OF w(2) oa] dn .
        with Ta show ?thesis
          unfolding out always_word_run [of ?T w p, OF T w] by simp
      next
        case plain
        then have out: "?R p s = r2 @ ?R True a"
          using re_sub_plain [OF k2, of p s r2] by (simp add: dw)
        from plain have wk: "w = k2" "\<not> p" "\<not> dotnext a"
          unfolding s hit_word_run [OF w(2) a] by auto
        have "\<not> hit dot k1 p (r2 @ ?R True a)"
          unfolding hit_word_run [OF r2w(2) oa] dn using wk cond
          by (cases dot) auto
        with Ta show ?thesis
          unfolding out always_word_run [of ?T r2 p, OF T r2w] by simp
      next
        case dot
        then have out: "?R p s = r2 @ ?R False (tl a)"
          using re_sub_dot [OF k2, of p s r2] by (simp add: dw)
        from dot have "dotnext a"
          unfolding s hit_word_run [OF w(2) a] by simp
        then obtain x u where ax: "a = CHR ''.'' # x # u" and x: "is_word x"
          by (auto simp: dotnext_def split: list.splits)
        from Ha have "always ?H False (tl a)"
          by (simp add: ax dot_not_word)
        moreover from len have "length (tl a) < length s" by (simp add: ax)
        ultimately have "always ?T False (?R False (tl a))"
          using IH by blast
        then have To: "always ?T True (?R False (tl a))"
          by (rule always_flag [rotated]) (rule T)
        from re_sub_head [OF k2 r2, of False "tl a"] x
        have o: "?R False (tl a) \<noteq> []" "is_word (hd (?R False (tl a)))"
          by (simp_all add: ax)
        have "takeWhile is_word (r2 @ ?R False (tl a)) \<noteq> k1"
        proof
          assume eq: "takeWhile is_word (r2 @ ?R False (tl a)) = k1"
          from o have "takeWhile is_word (?R False (tl a)) \<noteq> []"
            by (cases "?R False (tl a)") auto
          with r2w(2) eq have "strict_prefix r2 k1"
            by (auto simp: list_all_iff takeWhile_append2 strict_prefix_def)
          with nsp show False ..
        qed
        then have "\<not> hit dot k1 p (r2 @ ?R False (tl a))"
          by (simp add: hit_def)
        with To show ?thesis
          unfolding out always_word_run [of ?T r2 p, OF T r2w] by simp
      qed
    qed
  qed
qed

lemma always_mono:
  assumes "\<And>p t. P p t \<Longrightarrow> Q p t" "always P p s"
  shows "always Q p s"
  using assms(2) by (induction s arbitrary: p) (auto intro: assms(1))

lemma always_all: "(\<And>p t. P p t) \<Longrightarrow> always P p s"
  by (induction s arbitrary: p) auto

lemma re_sub_fix:
  assumes k: "wordy k" and r: "dot \<longrightarrow> r = k"
    and T: "always (\<lambda>p t. \<not> hit dot k p t) p s"
  shows "re_sub (m_abbrev k) r p s = s"
  using T
proof (induction s arbitrary: p rule: length_induct)
  case (1 s)
  let ?R = "re_sub (m_abbrev k) r"
  let ?T = "\<lambda>p t. \<not> hit dot k p t"
  have TT: "?T True t" for t by (simp add: hit_def)
  note IH = 1(1) [rule_format]
  show ?case
  proof (cases s)
    case Nil
    then show ?thesis by simp
  next
    case (Cons c cs)
    show ?thesis
    proof (cases "is_word c")
      case False
      from 1(2) Cons have "always ?T False cs" by (simp add: False)
      with IH [of cs False] Cons have "?R False cs = cs" by simp
      with re_sub_nonword [OF k False] Cons show ?thesis by simp
    next
      case True
      with Cons have ne: "s \<noteq> []" "is_word (hd s)" by simp_all
      then obtain w a where s: "s = w @ a" and w: "w \<noteq> []" "list_all is_word w"
        and a: "a = [] \<or> \<not> is_word (hd a)" and len: "length a < length s"
        and tw: "takeWhile is_word s = w" and dw: "dropWhile is_word s = a"
        by (rule first_word)
      from 1(2) have Ts: "?T p s" and Ta: "always ?T True a"
        using always_word_run [of ?T w p a, OF TT w] unfolding s by blast+
      from IH [OF len Ta] have Ra: "?R True a = a" .
      show ?thesis
      proof (cases "hit False k p s")
        case False
        from re_sub_copy [OF k ne False, of r] have "?R p s = w @ ?R True a"
          by (simp only: tw dw)
        also have "\<dots> = w @ a" by (simp only: Ra)
        also have "\<dots> = s" by (simp only: s)
        finally show ?thesis .
      next
        case True
        with Ts have d: "dot" by (cases dot) auto
        with Ts have nd: "\<not> hit True k p s" by simp
        from True have wk: "w = k" by (simp add: hit_def tw)
        from r d have rk: "r = k" by simp
        from re_sub_plain [OF k True nd, of r] have "?R p s = r @ ?R True a"
          by (simp only: dw)
        also have "\<dots> = r @ a" by (simp only: Ra)
        also have "\<dots> = s" by (simp only: rk wk [symmetric] s)
        finally show ?thesis .
      qed
    qed
  qed
qed

lemma space_not_word: "is_space c \<Longrightarrow> \<not> is_word c"
  by (auto simp: is_space_def is_word_def is_digit_def is_upper_def is_lower_def ord_def)

lemma space_not_dot: "is_space c \<Longrightarrow> c \<noteq> CHR ''.''"
  by (auto simp: is_space_def ord_def)

lemma blank_is_space: "is_space CHR '' ''"
  by (simp add: is_space_def ord_def)

lemma py_split_Nil: "py_split [] = []"
  by (simp add: py_split.simps)

lemma py_split_space: "is_space c \<Longrightarrow> py_split (c # cs) = py_split cs"
  by (subst (1 2) py_split.simps) simp

lemma py_split_token:
  "s \<noteq> [] \<Longrightarrow> \<not> is_space (hd s) \<Longrightarrow>
   py_split s = takeWhile (\<lambda>c. \<not> is_space c) s # py_split (dropWhile (\<lambda>c. \<not> is_space c) s)"
  by (subst py_split.simps) (cases s; simp)

lemma first_token:
  assumes "s \<noteq> []" "\<not> is_space (hd s)"
  obtains x y where "s = x @ y" "x \<noteq> []" "list_all (\<lambda>c. \<not> is_space c) x"
    "y = [] \<or> is_space (hd y)" "length y < length s"
    "takeWhile (\<lambda>c. \<not> is_space c) s = x" "dropWhile (\<lambda>c. \<not> is_space c) s = y"
proof -
  let ?x = "takeWhile (\<lambda>c. \<not> is_space c) s" and ?y = "dropWhile (\<lambda>c. \<not> is_space c) s"
  have 1: "s = ?x @ ?y" by simp
  from assms have 2: "?x \<noteq> []" by (cases s) auto
  have 3: "list_all (\<lambda>c. \<not> is_space c) ?x"
    by (auto simp: list_all_iff dest: set_takeWhileD)
  have 4: "?y = [] \<or> is_space (hd ?y)"
    using hd_dropWhile [of "\<lambda>c. \<not> is_space c" s] by blast
  from 2 have 5: "length ?y < length s"
    using arg_cong [OF 1, of length] by (cases ?x) auto
  from that [OF 1 2 3 4 5] show ?thesis by simp
qed

lemma py_split_nonempty: "t \<in> set (py_split s) \<Longrightarrow> t \<noteq> []"
proof (induction s arbitrary: t rule: length_induct)
  case (1 s)
  show ?case
  proof (cases s)
    case Nil
    with 1(2) show ?thesis by (simp add: py_split_Nil)
  next
    case (Cons c cs)
    show ?thesis
    proof (cases "is_space c")
      case True
      with 1(2) Cons have "t \<in> set (py_split cs)" by (simp add: py_split_space)
      with 1(1) [rule_format, of cs t] Cons show ?thesis by simp
    next
      case False
      with Cons have "s \<noteq> []" "\<not> is_space (hd s)" by simp_all
      then obtain x y where x: "x \<noteq> []" and len: "length y < length s"
        and "takeWhile (\<lambda>c. \<not> is_space c) s = x" "dropWhile (\<lambda>c. \<not> is_space c) s = y"
        by (rule first_token)
      with py_split_token [OF \<open>s \<noteq> []\<close> \<open>\<not> is_space (hd s)\<close>]
      have "py_split s = x # py_split y" by simp
      with 1(2) x 1(1) [rule_format, OF len] show ?thesis by auto
    qed
  qed
qed

lemma py_join_Cons:
  "py_join sep (x # xs) = (if xs = [] then x else x @ sep @ py_join sep xs)"
  by (cases xs) simp_all

lemma py_join_empty:
  "(\<And>t. t \<in> set xs \<Longrightarrow> t \<noteq> []) \<Longrightarrow> (py_join sep xs = []) = (xs = [])"
  by (cases xs) (auto simp: py_join_Cons)

lemma squeeze_Nil: "squeeze [] = []"
  by (simp add: squeeze_def py_split_Nil)

lemma squeeze_space: "is_space c \<Longrightarrow> squeeze (c # cs) = squeeze cs"
  by (simp add: squeeze_def py_split_space)

lemma squeeze_token:
  assumes "s \<noteq> []" "\<not> is_space (hd s)"
  shows "squeeze s =
           takeWhile (\<lambda>c. \<not> is_space c) s @
           (if squeeze (dropWhile (\<lambda>c. \<not> is_space c) s) = [] then []
            else CHR '' '' # squeeze (dropWhile (\<lambda>c. \<not> is_space c) s))"
proof -
  have "(py_join '' '' (py_split y) = []) = (py_split y = [])" for y
    by (rule py_join_empty) (rule py_split_nonempty)
  then show ?thesis
    by (simp add: squeeze_def py_split_token [OF assms] py_join_Cons)
qed

lemma run_split:
  assumes "list_all P x" "y = [] \<or> \<not> P (hd y)"
  shows "takeWhile P (x @ y) = x" "dropWhile P (x @ y) = y"
proof -
  from assms(2) have "takeWhile P y = [] \<and> dropWhile P y = y"
    by (cases y) auto
  with assms(1) show "takeWhile P (x @ y) = x" "dropWhile P (x @ y) = y"
    by (simp_all add: list_all_iff takeWhile_append2 dropWhile_append2)
qed

lemma squeeze_cases [case_names Nil space token]:
  assumes "s = [] \<Longrightarrow> R"
    and "\<And>c cs. s = c # cs \<Longrightarrow> is_space c \<Longrightarrow> squeeze s = squeeze cs \<Longrightarrow> R"
    and "\<And>x y. s = x @ y \<Longrightarrow> x \<noteq> [] \<Longrightarrow> list_all (\<lambda>c. \<not> is_space c) x \<Longrightarrow>
           y = [] \<or> is_space (hd y) \<Longrightarrow> length y < length s \<Longrightarrow>
           squeeze s = x @ (if squeeze y = [] then [] else CHR '' '' # squeeze y) \<Longrightarrow> R"
  shows R
proof (cases s)
  case Nil
  then show ?thesis by (rule assms(1))
next
  case (Cons c cs)
  show ?thesis
  proof (cases "is_space c")
    case True
    with Cons show ?thesis by (intro assms(2) [of c cs]) (simp_all add: squeeze_space)
  next
    case False
    with Cons have ne: "s \<noteq> []" "\<not> is_space (hd s)" by simp_all
    then obtain x y where 1: "s = x @ y" "x \<noteq> []" "list_all (\<lambda>c. \<not> is_space c) x"
      "y = [] \<or> is_space (hd y)" "length y < length s"
      and 2: "takeWhile (\<lambda>c. \<not> is_space c) s = x" "dropWhile (\<lambda>c. \<not> is_space c) s = y"
      by (rule first_token)
    from squeeze_token [OF ne]
    have "squeeze s = x @ (if squeeze y = [] then [] else CHR '' '' # squeeze y)"
      by (simp only: 2)
    with 1 show ?thesis by (rule assms(3))
  qed
qed

lemma squeeze_ends:
  "squeeze s \<noteq> [] \<Longrightarrow> \<not> is_space (hd (squeeze s)) \<and> \<not> is_space (last (squeeze s))"
proof (induction s rule: length_induct)
  case (1 s)
  show ?case
  proof (cases s rule: squeeze_cases)
    case Nil
    with 1(2) show ?thesis by (simp add: squeeze_Nil)
  next
    case (space c cs)
    with 1(2) 1(1) [rule_format, of cs] show ?thesis by simp
  next
    case (token x y)
    from token(2,3) have x: "\<not> is_space (hd x)" "\<not> is_space (last x)"
      by (simp_all add: list_all_iff)
    show ?thesis
    proof (cases "squeeze y = []")
      case True
      with token x show ?thesis by simp
    next
      case False
      with 1(1) [rule_format, OF token(5)] have "\<not> is_space (last (squeeze y))" by simp
      with False token x show ?thesis by simp
    qed
  qed
qed

lemma squeeze_idem: "squeeze (squeeze s) = squeeze s"
proof (induction s rule: length_induct)
  case (1 s)
  show ?case
  proof (cases s rule: squeeze_cases)
    case Nil
    then show ?thesis by (simp add: squeeze_Nil)
  next
    case (space c cs)
    with 1(1) [rule_format, of cs] show ?thesis by simp
  next
    case (token x y)
    define sfx where "sfx = (if squeeze y = [] then [] else CHR '' '' # squeeze y)"
    have sfx: "sfx = [] \<or> \<not> \<not> is_space (hd sfx)"
      by (simp add: sfx_def blank_is_space)
    from token(2) have ne: "x @ sfx \<noteq> []" "\<not> is_space (hd (x @ sfx))"
      using token(3) by (simp_all add: list_all_iff)
    have 2: "squeeze sfx = squeeze y"
    proof (cases "squeeze y = []")
      case True
      then show ?thesis by (simp add: sfx_def squeeze_Nil)
    next
      case False
      have "squeeze (CHR '' '' # squeeze y) = squeeze (squeeze y)"
        by (rule squeeze_space) (rule blank_is_space)
      also have "\<dots> = squeeze y"
        using 1(1) token(5) by blast
      finally show ?thesis using False by (simp add: sfx_def)
    qed
    have "squeeze (x @ sfx) = x @ (if squeeze y = [] then [] else CHR '' '' # squeeze y)"
      unfolding squeeze_token [OF ne] run_split [OF token(3) sfx] 2 ..
    then show ?thesis by (simp only: token(6) sfx_def)
  qed
qed

lemma squeeze_filter:
  assumes "\<And>c. is_space c \<Longrightarrow> \<not> P c"
  shows "filter P (squeeze s) = filter P s"
proof (induction s rule: length_induct)
  case (1 s)
  show ?case
  proof (cases s rule: squeeze_cases)
    case Nil
    then show ?thesis by (simp add: squeeze_Nil)
  next
    case (space c cs)
    with 1(1) [rule_format, of cs] assms [of c] show ?thesis by simp
  next
    case (token x y)
    from 1(1) [rule_format, OF token(5)] assms [OF blank_is_space]
    have "filter P (if squeeze y = [] then [] else CHR '' '' # squeeze y) = filter P y"
      by (auto split: if_splits)
    then show ?thesis
      unfolding token(6) by (simp add: token(1))
  qed
qed

lemma squeeze_list_all:
  assumes "Q CHR '' ''" "list_all Q s"
  shows "list_all Q (squeeze s)"
  using assms(2)
proof (induction s rule: length_induct)
  case (1 s)
  show ?case
  proof (cases s rule: squeeze_cases)
    case Nil
    then show ?thesis by (simp add: squeeze_Nil)
  next
    case (space c cs)
    with 1(1) [rule_format, of cs] 1(2) show ?thesis by simp
  next
    case (token x y)
    from 1(2) token(1) have "list_all Q x" "list_all Q y" by simp_all
    with 1(1) [rule_format, OF token(5)] assms(1) show ?thesis
      unfolding token(6) by simp
  qed
qed

lemma dotnext_token:
  assumes "y = [] \<or> is_space (hd y)"
  shows "dotnext (t @ y) = dotnext t"
proof (cases t)
  case Nil
  with assms show ?thesis
    by (cases y) (auto simp: dotnext_def space_not_dot split: list.splits)
next
  case (Cons a t')
  with assms show ?thesis
    by (cases t'; cases y) (auto simp: dotnext_def space_not_word)
qed

lemma hit_token:
  assumes "y = [] \<or> is_space (hd y)"
  shows "hit dot k p (x @ y) = hit dot k p x"
proof -
  from assms have y: "y = [] \<or> \<not> is_word (hd y)"
    using space_not_word by blast
  have "takeWhile is_word (x @ y) = takeWhile is_word x
      \<and> dropWhile is_word (x @ y) = dropWhile is_word x @ y"
  proof (cases "list_all is_word x")
    case True
    then have "takeWhile is_word x = x" "dropWhile is_word x = []"
      by (simp_all add: list_all_iff takeWhile_eq_all_conv)
    then show ?thesis
      by (simp only: run_split [OF True y] append_Nil)
  next
    case False
    then have "\<exists>z \<in> set x. \<not> is_word z" by (simp add: list_all_iff)
    then show ?thesis
      by (auto simp: takeWhile_append1 dropWhile_append1)
  qed
  then show ?thesis
    by (simp add: hit_def dotnext_token [OF assms])
qed

lemma always_token:
  assumes "y = [] \<or> is_space (hd y)" "x \<noteq> []"
  shows "always (\<lambda>p t. \<not> hit dot k p t) p (x @ y)
           = (always (\<lambda>p t. \<not> hit dot k p t) p x
              \<and> always (\<lambda>p t. \<not> hit dot k p t) (is_word (last x)) y)"
  using assms(2)
proof (induction x arbitrary: p)
  case Nil
  then show ?case by simp
next
  case (Cons c x)
  have h: "hit dot k p (c # x @ y) = hit dot k p (c # x)"
    using hit_token [OF assms(1), of dot k p "c # x"] by simp
  show ?case
  proof (cases x)
    case Nil
    with h show ?thesis by simp
  next
    case (Cons c' x')
    with Cons.IH [of "is_word c"] h show ?thesis by simp
  qed
qed

lemma squeeze_always:
  assumes "k \<noteq> []" "always (\<lambda>p t. \<not> hit dot k p t) p s"
  shows "always (\<lambda>p t. \<not> hit dot k p t) p (squeeze s)"
  using assms(2)
proof (induction s arbitrary: p rule: length_induct)
  case (1 s)
  let ?T = "\<lambda>p t. \<not> hit dot k p t"
  have T: "?T True t" for t by (simp add: hit_def)
  show ?case
  proof (cases s rule: squeeze_cases)
    case Nil
    then show ?thesis by (simp add: squeeze_Nil)
  next
    case (space c cs)
    from 1(2) space have "always ?T False cs"
      by (simp add: space_not_word)
    with 1(1) [rule_format, of cs False] space have "always ?T False (squeeze cs)"
      by simp
    then have "always ?T p (squeeze cs)"
      by (rule always_flag [rotated]) (rule T)
    with space show ?thesis by simp
  next
    case (token x y)
    let ?sfx = "if squeeze y = [] then [] else CHR '' '' # squeeze y"
    have sfx: "?sfx = [] \<or> is_space (hd ?sfx)"
      by (simp add: blank_is_space)
    from 1(2) have x: "always ?T p x" and y: "always ?T (is_word (last x)) y"
      unfolding token(1) always_token [OF token(4,2)] by simp_all
    have "always ?T (is_word (last x)) ?sfx"
    proof (cases "squeeze y = []")
      case True
      then show ?thesis by simp
    next
      case False
      then have "y \<noteq> []" by (auto simp: squeeze_Nil)
      with token(4) obtain c cs where c: "y = c # cs" "is_space c"
        by (cases y) auto
      with y have "always ?T False cs" by (simp add: space_not_word)
      moreover from token(5) c have "length cs < length s" by simp
      ultimately have "always ?T False (squeeze cs)"
        using 1(1) by blast
      moreover have "\<not> is_word CHR '' ''"
        by (rule space_not_word) (rule blank_is_space)
      ultimately show ?thesis
        using False assms(1) by (simp add: c squeeze_space hit_nonword)
    qed
    with x show ?thesis
      unfolding token(6) always_token [OF sfx token(2)] by simp
  qed
qed

lemma set_re_sub: "set (re_sub m r p s) \<subseteq> set s \<union> set r"
proof (induction s arbitrary: p rule: length_induct)
  case (1 s)
  show ?case
  proof (cases s)
    case Nil
    then show ?thesis by simp
  next
    case (Cons c cs)
    have a: "set (re_sub m r q cs) \<subseteq> set s \<union> set r" for q
      using 1 [rule_format, of cs q] Cons by auto
    have b: "set (re_sub m r q (drop n s)) \<subseteq> set s \<union> set r" if "0 < n" for q n
    proof -
      from that Cons have "length (drop n s) < length s" by simp
      from 1 [rule_format, OF this, of q] set_drop_subset [of n s] show ?thesis by blast
    qed
    from a b show ?thesis
      unfolding Cons re_sub.simps
      by (auto simp: Cons split: option.splits)
  qed
qed

lemma no_pair_fix: "no_pair s \<Longrightarrow> re_sub m_parens [] p s = s"
  by (induction s arbitrary: p) (auto simp: m_parens_def)

lemma no_pair_re_sub: "no_pair (re_sub m_parens [] p s)"
proof (induction s arbitrary: p rule: length_induct)
  case (1 s)
  show ?case
  proof (cases s)
    case Nil
    then show ?thesis by simp
  next
    case (Cons c cs)
    show ?thesis
    proof (cases "m_parens p (c # cs)")
      case None
      then have "\<not> (c = CHR ''('' \<and> CHR '')'' \<in> set cs)"
        by (auto simp: m_parens_def split: if_splits)
      moreover have "set (re_sub m_parens [] (is_word c) cs) \<subseteq> set cs"
        using set_re_sub [of m_parens "[]" "is_word c" cs] by simp
      moreover have "no_pair (re_sub m_parens [] (is_word c) cs)"
        using 1 [rule_format, of cs] Cons by simp
      ultimately show ?thesis
        using None Cons by auto
    next
      case (Some n)
      then have n: "0 < n" by (auto simp: m_parens_def split: if_splits)
      with Cons have "length (drop n (c # cs)) < length s" by simp
      from 1 [rule_format, OF this] Some n Cons show ?thesis by simp
    qed
  qed
qed

lemma no_pair_filter: "no_pair (filter paren s) = no_pair s"
  by (induction s) (auto simp: paren_def)

lemma filter_re_sub_abbrev:
  assumes k: "wordy k" and r: "wordy r" and P: "\<And>c. P c \<Longrightarrow> \<not> is_word c \<and> c \<noteq> CHR ''.''"
  shows "filter P (re_sub (m_abbrev k) r p s) = filter P s"
proof (induction s arbitrary: p rule: length_induct)
  case (1 s)
  let ?R = "re_sub (m_abbrev k) r"
  note IH = 1 [rule_format]
  have fw: "filter P w = []" if "list_all is_word w" for w
    using that P by (auto simp: list_all_iff filter_empty_conv)
  from k r have fk: "filter P k = []" and fr: "filter P r = []"
    by (simp_all add: wordy_def fw)
  show ?case
  proof (cases s)
    case Nil
    then show ?thesis by simp
  next
    case (Cons c cs)
    show ?thesis
    proof (cases "is_word c")
      case False
      with re_sub_nonword [OF k False] IH [of cs False] Cons show ?thesis by simp
    next
      case True
      with Cons have ne: "s \<noteq> []" "is_word (hd s)" by simp_all
      then obtain w a where s: "s = w @ a" and w: "w \<noteq> []" "list_all is_word w"
        and len: "length a < length s"
        and tw: "takeWhile is_word s = w" and dw: "dropWhile is_word s = a"
        by (rule first_word)
      have sa: "filter P s = filter P a"
        by (simp add: s fw [OF w(2)])
      consider (dot) "hit True k p s" | (plain) "hit False k p s" "\<not> hit True k p s"
        | (none) "\<not> hit False k p s"
        by blast
      then show ?thesis
      proof cases
        case none
        from re_sub_copy [OF k ne none, of r] IH [OF len, of True] show ?thesis
          by (simp add: tw dw fw [OF w(2)] sa)
      next
        case plain
        from re_sub_plain [OF k plain, of r] IH [OF len, of True] show ?thesis
          by (simp add: dw fr sa)
      next
        case dot
        then obtain x u where ax: "a = CHR ''.'' # x # u"
          by (auto simp: hit_def dw dotnext_def split: list.splits)
        with len have "length (tl a) < length s" by simp
        from re_sub_dot [OF k dot, of r] IH [OF this, of False] P [of "CHR ''.''"]
        show ?thesis
          by (auto simp: dw fr sa ax)
      qed
    qed
  qed
qed

lemma filter_dropWhile:
  "(\<And>c. Q c \<Longrightarrow> \<not> P c) \<Longrightarrow> filter P (dropWhile Q s) = filter P s"
  by (induction s) auto

lemma filter_strip:
  assumes "\<And>c. is_space c \<Longrightarrow> \<not> P c"
  shows "filter P (py_strip s) = filter P s"
proof -
  have "filter P (py_strip s) = rev (filter P (dropWhile is_space (rev (dropWhile is_space s))))"
    by (simp add: py_strip_def rev_filter)
  also have "\<dots> = rev (filter P (rev (dropWhile is_space s)))"
    by (simp only: filter_dropWhile [of is_space P, OF assms])
  also have "\<dots> = filter P (dropWhile is_space s)"
    by (simp add: rev_filter)
  also have "\<dots> = filter P s"
    by (rule filter_dropWhile) (rule assms)
  finally show ?thesis .
qed

lemma list_all_strip: "list_all Q s \<Longrightarrow> list_all Q (py_strip s)"
  by (auto simp: list_all_iff py_strip_def dest!: set_dropWhileD)

lemma list_all_re_sub: "list_all Q s \<Longrightarrow> list_all Q r \<Longrightarrow> list_all Q (re_sub m r p s)"
  using set_re_sub [of m r p s] by (auto simp: list_all_iff)

lemma upper_char_not_lower: "\<not> is_lower (upper_char c)"
  by (auto simp: upper_char_def is_lower_def ord_def)

lemma py_upper_not_lower: "list_all (\<lambda>c. \<not> is_lower c) (py_upper s)"
  by (simp add: py_upper_def list_all_iff upper_char_not_lower)

lemma py_upper_fix: "list_all (\<lambda>c. \<not> is_lower c) s \<Longrightarrow> py_upper s = s"
  by (simp add: py_upper_def list_all_iff upper_char_def map_idI)

lemma py_strip_fix:
  assumes "x \<noteq> [] \<Longrightarrow> \<not> is_space (hd x) \<and> \<not> is_space (last x)"
  shows "py_strip x = x"
proof (cases x)
  case Nil
  then show ?thesis by (simp add: py_strip_def)
next
  case (Cons c cs)
  with assms have h: "\<not> is_space (hd x)" and l: "\<not> is_space (last x)" by simp_all
  from h Cons have 1: "dropWhile is_space x = x" by simp
  from Cons have "x \<noteq> []" by simp
  with l have "\<not> is_space (hd (rev x))" by (simp add: hd_rev)
  with Cons have 2: "dropWhile is_space (rev x) = rev x"
    by (cases "rev x") auto
  show ?thesis by (simp add: py_strip_def 1 2)
qed

lemma stable_step:
  assumes "wordy k2" "wordy r2" "k1 \<noteq> []"
    and "if dot then \<not> strict_prefix r2 k1 else \<not> prefix r2 k1"
    and "always (\<lambda>p t. \<not> hit dot k1 p t) p s"
  shows "always (\<lambda>p t. \<not> hit dot k1 p t) p (re_sub (m_abbrev k2) r2 p s)"
proof (rule always_re_sub [OF assms(1-4)])
  from assms(5) show "always (\<lambda>p t. \<not> hit False k2 p t \<longrightarrow> \<not> hit dot k1 p t) p s"
    by (rule always_mono [rotated]) simp
qed

lemma stable_first_whole:
  assumes "wordy k" "wordy r" "\<not> prefix r k"
  shows "always (\<lambda>p t. \<not> hit False k p t) p (re_sub (m_abbrev k) r p s)"
proof (rule always_re_sub [OF assms(1,2)])
  from assms(1) show "k \<noteq> []" by (simp add: wordy_def)
  from assms(3) show "if False then \<not> strict_prefix r k else \<not> prefix r k" by simp
  show "always (\<lambda>p t. \<not> hit False k p t \<longrightarrow> \<not> hit False k p t) p s"
    by (rule always_all) simp
qed

lemma stable_first_dot:
  assumes "wordy k"
  shows "always (\<lambda>p t. \<not> hit True k p t) p (re_sub (m_abbrev k) k p s)"
proof (rule always_re_sub [OF assms assms])
  from assms show "k \<noteq> []" by (simp add: wordy_def)
  show "if True then \<not> strict_prefix k k else \<not> prefix k k" by simp
  show "always (\<lambda>p t. \<not> hit False k p t \<longrightarrow> \<not> hit True k p t) p s"
    by (rule always_all) (auto dest: hit_True_False)
qed

lemma wordy_keywords:
  "wordy ''CORP''" "wordy ''CORPORATION''" "wordy ''INC''" "wordy ''LLC''" "wordy ''CO''"
  "wordy ''COMPANY''"
  by (simp_all add: wordy_def is_word_def is_digit_def is_upper_def is_lower_def ord_def)

lemma upper_keywords:
  "list_all (\<lambda>c. \<not> is_lower c) ''CORPORATION''" "list_all (\<lambda>c. \<not> is_lower c) ''INC''"
  "list_all (\<lambda>c. \<not> is_lower c) ''LLC''" "list_all (\<lambda>c. \<not> is_lower c) ''COMPANY''"
  "\<not> is_lower CHR '' ''"
  by (simp_all add: is_lower_def ord_def)

lemma paren_not_word: "paren c \<Longrightarrow> \<not> is_word c \<and> c \<noteq> CHR ''.''"
  by (auto simp: paren_def is_word_def is_digit_def is_upper_def is_lower_def ord_def)

lemma space_not_paren: "is_space c \<Longrightarrow> \<not> paren c"
  by (auto simp: paren_def is_space_def ord_def)

lemma clean_stable:
  fixes y :: string
  defines "z0 \<equiv> re_sub m_parens [] False y"
  defines "z1 \<equiv> re_sub (m_abbrev ''CORP'') ''CORPORATION'' False z0"
  defines "z2 \<equiv> re_sub (m_abbrev ''INC'') ''INC'' False z1"
  defines "z3 \<equiv> re_sub (m_abbrev ''LLC'') ''LLC'' False z2"
  defines "z4 \<equiv> re_sub (m_abbrev ''CO'') ''COMPANY'' False z3"
  defines "X \<equiv> squeeze z4"
  assumes up: "list_all (\<lambda>c. \<not> is_lower c) y"
  shows "py_upper X = X" "py_strip X = X" "re_sub m_parens [] False X = X"
    "re_sub (m_abbrev ''CORP'') ''CORPORATION'' False X = X"
    "re_sub (m_abbrev ''INC'') ''INC'' False X = X"
    "re_sub (m_abbrev ''LLC'') ''LLC'' False X = X"
    "re_sub (m_abbrev ''CO'') ''COMPANY'' False X = X"
    "squeeze X = X"
proof -
  note w = wordy_keywords
  have "list_all (\<lambda>c. \<not> is_lower c) z4"
    unfolding z4_def z3_def z2_def z1_def z0_def
    by (intro list_all_re_sub up upper_keywords) simp
  then have "list_all (\<lambda>c. \<not> is_lower c) X"
    unfolding X_def by (intro squeeze_list_all upper_keywords)
  then show "py_upper X = X" by (rule py_upper_fix)
  show "py_strip X = X"
    unfolding X_def by (rule py_strip_fix) (rule squeeze_ends)
  have "filter paren X = filter paren z0"
    unfolding X_def z4_def z3_def z2_def z1_def
    by (simp only: squeeze_filter [of paren, OF space_not_paren]
        filter_re_sub_abbrev [of _ _ paren, OF w(5) w(6) paren_not_word]
        filter_re_sub_abbrev [of _ _ paren, OF w(4) w(4) paren_not_word]
        filter_re_sub_abbrev [of _ _ paren, OF w(3) w(3) paren_not_word]
        filter_re_sub_abbrev [of _ _ paren, OF w(1) w(2) paren_not_word])
  then have "no_pair (filter paren X) = no_pair (filter paren z0)" by simp
  then have "no_pair X"
    unfolding no_pair_filter z0_def by (simp add: no_pair_re_sub)
  then show "re_sub m_parens [] False X = X" by (rule no_pair_fix)
  have "always (\<lambda>p t. \<not> hit False ''CORP'' p t) False z1"
    unfolding z1_def by (rule stable_first_whole [OF w(1) w(2)]) simp
  then have "always (\<lambda>p t. \<not> hit False ''CORP'' p t) False z2"
    unfolding z2_def by (intro stable_step w) simp_all
  then have "always (\<lambda>p t. \<not> hit False ''CORP'' p t) False z3"
    unfolding z3_def by (intro stable_step w) simp_all
  then have "always (\<lambda>p t. \<not> hit False ''CORP'' p t) False z4"
    unfolding z4_def by (intro stable_step w) simp_all
  then have "always (\<lambda>p t. \<not> hit False ''CORP'' p t) False X"
    unfolding X_def by (intro squeeze_always) simp_all
  then show "re_sub (m_abbrev ''CORP'') ''CORPORATION'' False X = X"
    by (intro re_sub_fix [where dot = False] w) simp_all
  have "always (\<lambda>p t. \<not> hit True ''INC'' p t) False z2"
    unfolding z2_def by (rule stable_first_dot [OF w(3)])
  then have "always (\<lambda>p t. \<not> hit True ''INC'' p t) False z3"
    unfolding z3_def by (intro stable_step w) simp_all
  then have "always (\<lambda>p t. \<not> hit True ''INC'' p t) False z4"
    unfolding z4_def by (intro stable_step w) simp_all
  then have "always (\<lambda>p t. \<not> hit True ''INC'' p t) False X"
    unfolding X_def by (intro squeeze_always) simp_all
  then show "re_sub (m_abbrev ''INC'') ''INC'' False X = X"
    by (intro re_sub_fix [where dot = True] w) simp_all
  have "always (\<lambda>p t. \<not> hit True ''LLC'' p t) False z3"
    unfolding z3_def by (rule stable_first_dot [OF w(4)])
  then have "always (\<lambda>p t. \<not> hit True ''LLC'' p t) False z4"
    unfolding z4_def by (intro stable_step w) simp_all
  then have "always (\<lambda>p t. \<not> hit True ''LLC'' p t) False X"
    unfolding X_def by (intro squeeze_always) simp_all
  then show "re_sub (m_abbrev ''LLC'') ''LLC'' False X = X"
    by (intro re_sub_fix [where dot = True] w) simp_all
  have "always (\<lambda>p t. \<not> hit False ''CO'' p t) False z4"
    unfolding z4_def by (rule stable_first_whole [OF w(5) w(6)]) simp
  then have "always (\<lambda>p t. \<not> hit False ''CO'' p t) False X"
    unfolding X_def by (intro squeeze_always) simp_all
  then show "re_sub (m_abbrev ''CO'') ''COMPANY'' False X = X"
    by (intro re_sub_fix [where dot = False] w) simp_all
  show "squeeze X = X"
    unfolding X_def by (rule squeeze_idem)
qed

lemma clean_company_name_squeeze:
  "n \<noteq> [] \<Longrightarrow>
   clean_company_name (Some n) =
     squeeze (re_sub (m_abbrev ''CO'') ''COMPANY'' False
       (re_sub (m_abbrev ''LLC'') ''LLC'' False
         (re_sub (m_abbrev ''INC'') ''INC'' False
           (re_sub (m_abbrev ''CORP'') ''CORPORATION'' False
             (re_sub m_parens [] False (py_strip (py_upper n)))))))"
  unfolding clean_company_name_def Let_def squeeze_def [symmetric]
  by (simp add: py_strip_fix squeeze_ends)

text \<open>
  Claim C8. The normalizer is idempotent: normalizing a normalized name changes nothing.
\<close>

theorem clean_company_name_idempotent:
  "clean_company_name (Some (clean_company_name x)) = clean_company_name x"
proof (cases "clean_company_name x = []")
  case True
  then show ?thesis by (simp add: clean_company_name_def)
next
  case False
  then obtain n where x: "x = Some n" and n: "n \<noteq> []"
    by (cases x) (auto simp: clean_company_name_def split: if_splits)
  have up: "list_all (\<lambda>c. \<not> is_lower c) (py_strip (py_upper n))"
    by (intro list_all_strip py_upper_not_lower)
  note st = clean_stable [OF up]
  show ?thesis
    unfolding x clean_company_name_squeeze [OF n]
    unfolding clean_company_name_squeeze [OF False [unfolded x clean_company_name_squeeze [OF n]]]
    by (simp only: st)
qed

theorem clean_company_name_idempotent_witness:
  "clean_company_name (Some (clean_company_name (Some '' Acme (old) corp. ''))) = ''ACME CORPORATION.''"
proof -
  have "clean_company_name (Some '' Acme (old) corp. '') = ''ACME CORPORATION.''"
    by code_simp
  with clean_company_name_idempotent [of "Some '' Acme (old) corp. ''"] show ?thesis
    by (simp only:)
qed

section \<open>Parsing monetary values\<close>

lemma re_sub_money_filter:
  "re_sub m_money [] prev s = filter (\<lambda>c. c \<noteq> CHR ''$'' \<and> c \<noteq> CHR '','') s"
  by (induction s arbitrary: prev) (simp_all add: m_money_def)

lemma parse_contract_value_Inr: "\<exists>x. parse_contract_value v = Inr x"
  by (auto simp: parse_contract_value_def Let_def split: option.splits sum.splits)

lemma scale10_nonneg: "0 \<le> scale10 m e"
  by (simp add: scale10_def)

lemma py_float_1234_50: "py_float ''1234.50'' = Inr (Fin (2469 / 2))"
proof -
  have b: "sign_and_body ''1234.50'' = (False, ''1234.50'')"
    by (simp add: sign_and_body_def is_blank_def ord_def)
  have c: "floatnumber ''1234.50'' = Some (123450, - 2)"
    by (simp add: floatnumber_def digitpart_def exponent_def digits_nat_def is_digit_def
        ord_def digit_val_def)
  have d: "py_lower ''1234.50'' = ''1234.50''"
    by (simp add: py_lower_def lower_char_def is_upper_def ord_def)
  show ?thesis
    by (simp add: py_float_def b c d scale10_def)
qed

lemma py_float_minus_5: "py_float ''-5'' = Inr (Fin (- 5))"
proof -
  have b: "sign_and_body ''-5'' = (True, ''5'')"
    by (simp add: sign_and_body_def is_blank_def ord_def)
  have c: "floatnumber ''5'' = Some (5, 0)"
    by (simp add: floatnumber_def digitpart_def exponent_def digits_nat_def is_digit_def
        ord_def digit_val_def)
  have d: "py_lower ''5'' = ''5''"
    by (simp add: py_lower_def lower_char_def is_upper_def ord_def)
  show ?thesis
    by (simp add: py_float_def b c d scale10_def)
qed

lemma parse_1234_50: "parse_contract_value (Some ''$1,234.50'') = Inr (Fin (2469 / 2))"
proof -
  have "re_sub m_money [] False ''$1,234.50'' = ''1234.50''"
    by (simp add: m_money_def)
  then show ?thesis
    by (simp add: parse_contract_value_def py_float_1234_50 del: re_sub.simps)
qed

lemma parse_minus_5: "parse_contract_value (Some ''-5'') = Inr (Fin (- 5))"
proof -
  have "re_sub m_money [] False ''-5'' = ''-5''"
    by (simp add: m_money_def)
  then show ?thesis
    by (simp add: parse_contract_value_def py_float_minus_5 del: re_sub.simps)
qed

text \<open>
  Claim C7. \<^verbatim>\<open>parse_contract_value\<close> never raises: it always returns a number. A
  missing or empty string gives 0.0; otherwise the dollar signs and commas are deleted
  and the rest is read by \<^verbatim>\<open>float\<close>: if that fails the result is 0.0, if it succeeds
  the result is the number read. In particular \<^verbatim>\<open>"N/A"\<close> gives 0.0 and
  \<^verbatim>\<open>"$1,234.50"\<close> gives 1234.50.
\<close>

theorem parse_contract_value_never_raises:
  "(\<exists>x. parse_contract_value v = Inr x)
   \<and> (v = None \<or> v = Some [] \<longrightarrow> parse_contract_value v = Inr (Fin 0))
   \<and> (\<forall>s e. v = Some s \<and> py_float (filter (\<lambda>c. c \<noteq> CHR ''$'' \<and> c \<noteq> CHR '','') s) = Inl e
         \<longrightarrow> parse_contract_value v = Inr (Fin 0))
   \<and> (\<forall>s x. v = Some s \<and> s \<noteq> []
           \<and> py_float (filter (\<lambda>c. c \<noteq> CHR ''$'' \<and> c \<noteq> CHR '','') s) = Inr x
         \<longrightarrow> parse_contract_value v = Inr x)
   \<and> parse_contract_value (Some ''N/A'') = Inr (Fin 0)
   \<and> parse_contract_value (Some ''$1,234.50'') = Inr (Fin (2469 / 2))"
proof (intro conjI)
  show "\<exists>x. parse_contract_value v = Inr x"
    by (rule parse_contract_value_Inr)
  show "v = None \<or> v = Some [] \<longrightarrow> parse_contract_value v = Inr (Fin 0)"
    by (auto simp: parse_contract_value_def)
  show "\<forall>s e. v = Some s \<and> py_float (filter (\<lambda>c. c \<noteq> CHR ''$'' \<and> c \<noteq> CHR '','') s) = Inl e
         \<longrightarrow> parse_contract_value v = Inr (Fin 0)"
    by (auto simp: parse_contract_value_def re_sub_money_filter Let_def)
  show "\<forall>s x. v = Some s \<and> s \<noteq> []
           \<and> py_float (filter (\<lambda>c. c \<noteq> CHR ''$'' \<and> c \<noteq> CHR '','') s) = Inr x
         \<longrightarrow> parse_contract_value v = Inr x"
    by (auto simp: parse_contract_value_def re_sub_money_filter Let_def)
  show "parse_contract_value (Some ''N/A'') = Inr (Fin 0)"
    by code_simp
  show "parse_contract_value (Some ''$1,234.50'') = Inr (Fin (2469 / 2))"
    by (rule parse_1234_50)
qed

theorem parse_contract_value_never_raises_witness:
  "py_float (filter (\<lambda>c. c \<noteq> CHR ''$'' \<and> c \<noteq> CHR '','') ''$N/A'') = Inl ValueError
   \<and> parse_contract_value (Some ''$N/A'') = Inr (Fin 0)"
proof -
  have h: "py_float (filter (\<lambda>c. c \<noteq> CHR ''$'' \<and> c \<noteq> CHR '','') ''$N/A'') = Inl ValueError"
    by code_simp
  from parse_contract_value_never_raises [of "Some ''$N/A''"]
  have "\<forall>s e. Some ''$N/A'' = Some s
           \<and> py_float (filter (\<lambda>c. c \<noteq> CHR ''$'' \<and> c \<noteq> CHR '','') s) = Inl e
         \<longrightarrow> parse_contract_value (Some ''$N/A'') = Inr (Fin 0)"
    by blast
  with h have "parse_contract_value (Some ''$N/A'') = Inr (Fin 0)"
    by blast
  with h show ?thesis by blast
qed

text \<open>
  Claim C4 says that \<^verbatim>\<open>parse_contract_value\<close> returns a number \<open>\<ge> 0\<close> for every
  input. It does not: the string \<^verbatim>\<open>"-5"\<close> parses to \<open>-5.0\<close>.
\<close>

theorem parse_contract_value_negative:
  "parse_contract_value (Some ''-5'') = Inr (Fin (- 5)) \<and> \<not> fge (Fin (- 5)) (Fin 0)"
  by (simp add: parse_minus_5)

text \<open>
  Claim C4, amended. The value returned by \<^verbatim>\<open>parse_contract_value\<close> is \<open>\<ge> 0\<close>
  whenever it is a number (not NaN) and the text that is left after deleting the dollar
  signs and commas and trimming the blanks does not begin with a minus sign. The bound
  compares exact values; rounding to binary64 keeps the sign of a non-negative number.
\<close>

theorem parse_contract_value_nonneg:
  assumes "parse_contract_value (Some s) = Inr x"
    and "x \<noteq> NaN"
    and "\<not> fst (sign_and_body (filter (\<lambda>c. c \<noteq> CHR ''$'' \<and> c \<noteq> CHR '','') s))"
  shows "fge x (Fin 0)"
  using assms
  by (auto simp: parse_contract_value_def re_sub_money_filter py_float_def Let_def scale10_nonneg
      split: if_splits sum.splits prod.splits option.splits)

theorem parse_contract_value_nonneg_witness:
  "parse_contract_value (Some ''$1,234.50'') = Inr (Fin (2469 / 2))
   \<and> Fin (2469 / 2) \<noteq> NaN
   \<and> \<not> fst (sign_and_body (filter (\<lambda>c. c \<noteq> CHR ''$'' \<and> c \<noteq> CHR '','') ''$1,234.50''))
   \<and> fge (Fin (2469 / 2)) (Fin 0)"
proof -
  have n: "\<not> fst (sign_and_body (filter (\<lambda>c. c \<noteq> CHR ''$'' \<and> c \<noteq> CHR '','') ''$1,234.50''))"
    by (simp add: sign_and_body_def is_blank_def ord_def)
  from parse_contract_value_nonneg [OF parse_1234_50 _ n] parse_1234_50 n show ?thesis by simp
qed

section \<open>Invariants of loading and matching\<close>

lemma update_values: "snd ` set (AList.update k v al) \<subseteq> insert v (snd ` set al)"
  by (induction al) auto

lemma load_customer_row_ok: "index_ok st \<Longrightarrow> index_ok (load_customer_row st r)"
proof -
  assume ok: "index_ok st"
  obtain cs m where st: "st = (cs, m)" by (cases st)
  show ?thesis
  proof (cases "py_strip (row_get r ''Customer ID'' []) = [] \<or> py_strip (row_get r ''Customer'' []) = []")
    case True
    then show ?thesis using ok by (auto simp: load_customer_row_def st Let_def)
  next
    case False
    have "snd ` set (AList.update k v m) \<subseteq> insert v (fst ` set cs)" for k v
      using update_values [of k v m] ok by (auto simp: index_ok_def st)
    with False ok show ?thesis
      by (auto simp: load_customer_row_def st Let_def index_ok_def dom_update distinct_update
          update_conv' split: if_splits)
  qed
qed

lemma foldl_load_ok: "index_ok st \<Longrightarrow> index_ok (foldl load_customer_row st rows)"
  by (induction rows arbitrary: st) (simp_all add: load_customer_row_ok)

lemma load_customers_ok: "index_ok (load_customers rows)"
  unfolding load_customers_def by (rule foldl_load_ok) (simp add: index_ok_def)

lemma fuzzy_scan_in_index: "fuzzy_scan c m = Some cid \<Longrightarrow> cid \<in> snd ` set m"
  by (induction m) (auto simp: Let_def split: if_splits)

lemma match_customer_in_index: "match_customer m n = Some cid \<Longrightarrow> cid \<in> snd ` set m"
  by (auto simp: match_customer_def Let_def split: option.splits
      dest: fuzzy_scan_in_index map_of_SomeD intro: rev_image_eqI)

lemma sum_active_values_snoc:
  "sum_active_values (ks @ [k]) =
     (if contract_status k = ''active'' then fadd (sum_active_values ks) (contract_value k)
      else sum_active_values ks)"
  by (simp add: sum_active_values_def)

lemma attach_contract_contracts: "contracts (attach_contract c k) = contracts c @ [k]"
  by (simp add: attach_contract_def Let_def)

lemma attach_contract_total:
  "total_contract_value (attach_contract c k) =
     (if contract_status k = ''active'' then fadd (total_contract_value c) (contract_value k)
      else total_contract_value c)"
  by (simp add: attach_contract_def Let_def)

lemma links_ok_unmatched:
  assumes "links_ok m st" and "matched_customer_id k = None"
  shows "links_ok m (st\<lparr>st_contracts := st_contracts st @ [k], st_unmatched := u\<rparr>)"
  using assms by (auto simp: links_ok_def)

lemma links_ok_matched:
  assumes ok: "links_ok m st" and mid: "matched_customer_id k = Some cid"
    and c0: "map_of (st_customers st) cid = Some c0"
  shows "links_ok m (st\<lparr>st_contracts := st_contracts st @ [k], st_matched_count := n,
            st_customers := AList.update cid (attach_contract c0 k) (st_customers st)\<rparr>)"
proof -
  have key: "cid \<in> fst ` set (st_customers st)"
    using c0 by (auto dest!: map_of_SomeD intro: rev_image_eqI)
  then have keys: "fst ` set (AList.update cid v (st_customers st)) = fst ` set (st_customers st)" for v
    by (auto simp: dom_update)
  show ?thesis
    using ok mid c0 key
    by (auto simp: links_ok_def keys distinct_update update_conv' attach_contract_contracts
        attach_contract_total sum_active_values_snoc split: if_splits)
qed

lemma process_row_ok:
  assumes ok: "links_ok m st"
  shows "\<exists>st'. process_row u p m st r = Inr st' \<and> links_ok m st'
           \<and> fst ` set (st_customers st') = fst ` set (st_customers st)"
proof (cases "skip_row (py_strip (row_get r ''Customer'' [])) (py_strip (row_get r ''Contract Name'' []))")
  case True
  then show ?thesis using ok by (simp add: process_row_def Let_def)
next
  case False
  obtain x where x: "parse_contract_value (Some (row_get r ''Value'' ''0'')) = Inr x"
    using parse_contract_value_Inr by blast
  show ?thesis
  proof (cases "match_customer m (py_strip (row_get r ''Customer'' []))")
    case None
    with False x links_ok_unmatched [OF ok] show ?thesis
      by (simp add: process_row_def Let_def truthy_def)
  next
    case (Some cid)
    then have "cid \<in> snd ` set m" by (rule match_customer_in_index)
    with ok have key: "cid \<in> fst ` set (st_customers st)"
      unfolding links_ok_def by blast
    with ok have ne: "cid \<noteq> []"
      unfolding links_ok_def by blast
    from key obtain c0 where c0: "map_of (st_customers st) cid = Some c0"
      by (metis map_of_eq_None_iff not_None_eq)
    from key have "fst ` set (AList.update cid v (st_customers st)) = fst ` set (st_customers st)" for v
      by (auto simp: dom_update)
    with False x Some ne c0 links_ok_matched [OF ok _ c0] show ?thesis
      by (simp add: process_row_def Let_def truthy_def)
  qed
qed

lemma process_rows_ok:
  "links_ok m st \<Longrightarrow>
   \<exists>st'. process_rows u p m st rows = Inr st' \<and> links_ok m st'
         \<and> fst ` set (st_customers st') = fst ` set (st_customers st)"
proof (induction rows arbitrary: st)
  case Nil
  then show ?case by simp
next
  case (Cons r rows)
  from process_row_ok [OF Cons.prems] obtain st1
    where "process_row u p m st r = Inr st1" and "links_ok m st1"
      and "fst ` set (st_customers st1) = fst ` set (st_customers st)" by blast
  with Cons.IH [of st1] show ?case by simp
qed

lemma links_ok_initial:
  "index_ok (cs, m) \<Longrightarrow>
   links_ok m \<lparr>st_customers = cs, st_contracts = [], st_unmatched = [], st_matched_count = 0\<rparr>"
  by (auto simp: index_ok_def links_ok_def sum_active_values_def)

lemma run_ok:
  "\<exists>st. process_rows u p (snd (load_customers crows))
            \<lparr>st_customers = fst (load_customers crows), st_contracts = [], st_unmatched = [],
              st_matched_count = 0\<rparr> krows = Inr st
        \<and> links_ok (snd (load_customers crows)) st
        \<and> fst ` set (st_customers st) = fst ` set (fst (load_customers crows))
        \<and> run u p crows krows
            = Inr (map (\<lambda>(cid, c). (cid, update_tier c)) (st_customers st), st_contracts st)"
proof -
  have "index_ok (fst (load_customers crows), snd (load_customers crows))"
    using load_customers_ok [of crows] by simp
  from process_rows_ok [OF links_ok_initial [OF this]]
  obtain st where "process_rows u p (snd (load_customers crows))
            \<lparr>st_customers = fst (load_customers crows), st_contracts = [], st_unmatched = [],
              st_matched_count = 0\<rparr> krows = Inr st"
    and "links_ok (snd (load_customers crows)) st"
    and "fst ` set (st_customers st) = fst ` set (fst (load_customers crows))" by force
  then show ?thesis
    by (auto simp: run_def load_and_match_contracts_def split: prod.splits)
qed

section \<open>Matching and aggregation\<close>

lemma process_row_contract:
  assumes "process_row u p m st r = Inr st'"
    and "\<not> skip_row (py_strip (row_get r ''Customer'' [])) (py_strip (row_get r ''Contract Name'' []))"
  shows "\<exists>k. st_contracts st' = st_contracts st @ [k]
           \<and> contract_status k =
               (if py_lower (py_strip (row_get r ''Status'' [])) = ''active'' then ''active''
                else ''expired'')
           \<and> matched_customer_id k = match_customer m (py_strip (row_get r ''Customer'' []))
           \<and> parse_contract_value (Some (row_get r ''Value'' ''0'')) = Inr (contract_value k)"
  using assms
  by (auto simp: process_row_def Let_def split: sum.splits if_splits option.splits)

lemma process_row_skipped:
  assumes "process_row u p m st r = Inr st'"
    and "skip_row (py_strip (row_get r ''Customer'' [])) (py_strip (row_get r ''Contract Name'' []))"
  shows "st' = st"
  using assms by (simp add: process_row_def Let_def)

lemma process_rows_status:
  assumes "process_rows u p m st rows = Inr st'"
    and "\<forall>k \<in> set (st_contracts st). contract_status k = ''active'' \<or> contract_status k = ''expired''"
  shows "\<forall>k \<in> set (st_contracts st'). contract_status k = ''active'' \<or> contract_status k = ''expired''"
  using assms
proof (induction rows arbitrary: st)
  case Nil
  then show ?case by simp
next
  case (Cons r rows)
  from Cons.prems(1) obtain st1 where 1: "process_row u p m st r = Inr st1"
    and 2: "process_rows u p m st1 rows = Inr st'"
    by (auto split: sum.splits)
  have "\<forall>k \<in> set (st_contracts st1). contract_status k = ''active'' \<or> contract_status k = ''expired''"
  proof (cases "skip_row (py_strip (row_get r ''Customer'' [])) (py_strip (row_get r ''Contract Name'' []))")
    case True
    from process_row_skipped [OF 1 True] Cons.prems(2) show ?thesis by simp
  next
    case False
    from process_row_contract [OF 1 False] obtain k
      where k: "st_contracts st1 = st_contracts st @ [k]"
        and "contract_status k =
               (if py_lower (py_strip (row_get r ''Status'' [])) = ''active'' then ''active''
                else ''expired'')"
      by blast
    then have "contract_status k = ''active'' \<or> contract_status k = ''expired''"
      by (cases "py_lower (py_strip (row_get r ''Status'' [])) = ''active''") simp_all
    with k Cons.prems(2) show ?thesis by auto
  qed
  with Cons.IH [OF 2] show ?case by simp
qed

text \<open>
  Claim C9. A run of the two loading steps never fails with a missing key: it returns
  the customers and the contracts, the customer set has the keys it was loaded with,
  and every contract whose \<open>matched_customer_id\<close> is set refers to one of these keys.
\<close>

theorem matched_customer_exists:
  "\<exists>cs ks. run u p crows krows = Inr (cs, ks)
     \<and> fst ` set cs = fst ` set (fst (load_customers crows))
     \<and> (\<forall>k \<in> set ks. \<forall>cid. matched_customer_id k = Some cid \<longrightarrow>
           cid \<in> fst ` set (fst (load_customers crows)))"
proof -
  from run_ok [of u p crows krows] obtain st
    where ok: "links_ok (snd (load_customers crows)) st"
      and keys: "fst ` set (st_customers st) = fst ` set (fst (load_customers crows))"
      and r: "run u p crows krows
                = Inr (map (\<lambda>(cid, c). (cid, update_tier c)) (st_customers st), st_contracts st)"
    by blast
  have "fst ` set (map (\<lambda>(cid, c). (cid, update_tier c)) (st_customers st))
          = fst ` set (st_customers st)"
    by force
  moreover from ok keys have "\<forall>k \<in> set (st_contracts st). \<forall>cid. matched_customer_id k = Some cid \<longrightarrow>
           cid \<in> fst ` set (fst (load_customers crows))"
    unfolding links_ok_def by blast
  ultimately show ?thesis using r keys by simp
qed

text \<open>
  Claim C2. After a full run, the collection of every customer holds exactly the
  contracts whose \<open>matched_customer_id\<close> is that customer's key, in the order of the
  contract set, and the customer's \<open>total_contract_value\<close> is the sum of the values of
  the active contracts of that collection. Unmatched contracts are in no collection, and
  expired ones are left out of the sum.
\<close>

theorem total_contract_value_is_active_sum:
  "\<exists>cs ks. run u p crows krows = Inr (cs, ks)
     \<and> (\<forall>(cid, c) \<in> set cs.
           contracts c = filter (\<lambda>k. matched_customer_id k = Some cid) ks
           \<and> total_contract_value c = sum_active_values (contracts c))"
proof -
  from run_ok [of u p crows krows] obtain st
    where ok: "links_ok (snd (load_customers crows)) st"
      and r: "run u p crows krows
                = Inr (map (\<lambda>(cid, c). (cid, update_tier c)) (st_customers st), st_contracts st)"
    by blast
  have "contracts c = filter (\<lambda>k. matched_customer_id k = Some cid) (st_contracts st)
          \<and> total_contract_value c = sum_active_values (contracts c)"
    if "(cid, c) \<in> set (map (\<lambda>(cid, c). (cid, update_tier c)) (st_customers st))" for cid c
  proof -
    from that obtain c0 where c0: "(cid, c0) \<in> set (st_customers st)" and c: "c = update_tier c0"
      by auto
    from ok have "distinct (map fst (st_customers st))" by (simp add: links_ok_def)
    with c0 have "map_of (st_customers st) cid = Some c0" by simp
    with ok have "contracts c0 = filter (\<lambda>k. matched_customer_id k = Some cid) (st_contracts st)
          \<and> total_contract_value c0 = sum_active_values (contracts c0)"
      unfolding links_ok_def by blast
    then show ?thesis by (simp add: c update_tier_def)
  qed
  then have "\<forall>(cid, c) \<in> set (map (\<lambda>(cid, c). (cid, update_tier c)) (st_customers st)).
           contracts c = filter (\<lambda>k. matched_customer_id k = Some cid) (st_contracts st)
           \<and> total_contract_value c = sum_active_values (contracts c)"
    by blast
  with r show ?thesis by blast
qed

text \<open>
  Claim C10. The contract made from a row has the status \<^verbatim>\<open>active\<close> or
  \<^verbatim>\<open>expired\<close>; it is \<^verbatim>\<open>active\<close> exactly when the trimmed \<^verbatim>\<open>Status\<close> cell,
  in lower case, is \<^verbatim>\<open>active\<close>, and \<^verbatim>\<open>expired\<close> for every other cell, an empty
  or absent one included. Hence every contract of a run has one of the two statuses.
\<close>

theorem contract_status_active_or_expired:
  "(\<forall>st'. process_row u p m st r = Inr st'
        \<and> \<not> skip_row (py_strip (row_get r ''Customer'' [])) (py_strip (row_get r ''Contract Name'' []))
      \<longrightarrow> (\<exists>k. st_contracts st' = st_contracts st @ [k]
             \<and> (contract_status k = ''active'' \<or> contract_status k = ''expired'')
             \<and> (contract_status k = ''active''
                  \<longleftrightarrow> py_lower (py_strip (row_get r ''Status'' [])) = ''active'')))
   \<and> (\<forall>cs ks. run u p crows krows = Inr (cs, ks)
      \<longrightarrow> (\<forall>k \<in> set ks. contract_status k = ''active'' \<or> contract_status k = ''expired''))"
proof (intro conjI allI impI)
  fix st'
  assume a: "process_row u p m st r = Inr st'
        \<and> \<not> skip_row (py_strip (row_get r ''Customer'' [])) (py_strip (row_get r ''Contract Name'' []))"
  from process_row_contract [of u p m st r st'] a obtain k
    where "st_contracts st' = st_contracts st @ [k]"
      and "contract_status k =
               (if py_lower (py_strip (row_get r ''Status'' [])) = ''active'' then ''active''
                else ''expired'')"
    by blast
  then show "\<exists>k. st_contracts st' = st_contracts st @ [k]
             \<and> (contract_status k = ''active'' \<or> contract_status k = ''expired'')
             \<and> (contract_status k = ''active''
                  \<longleftrightarrow> py_lower (py_strip (row_get r ''Status'' [])) = ''active'')"
    by (intro exI [of _ k]) simp
next
  fix cs ks
  assume "run u p crows krows = Inr (cs, ks)"
  then obtain st where "process_rows u p (snd (load_customers crows))
            \<lparr>st_customers = fst (load_customers crows), st_contracts = [], st_unmatched = [],
              st_matched_count = 0\<rparr> krows = Inr st" and "ks = st_contracts st"
    by (auto simp: run_def load_and_match_contracts_def split: prod.splits sum.splits)
  with process_rows_status [of u p _ _ krows st]
  show "\<forall>k \<in> set ks. contract_status k = ''active'' \<or> contract_status k = ''expired''"
    by simp
qed

text \<open>
  Claim C3. When the normalized customer name of a contract is a key of the index, the
  matcher returns the identifier stored under that key, whatever the scan over the
  candidates would have found, and the contract made from the row carries it.
\<close>

theorem exact_match_precedence:
  assumes "map_of m (clean_company_name (Some n)) = Some cid"
  shows "match_customer m n = Some cid
    \<and> (\<forall>st'. n = py_strip (row_get r ''Customer'' [])
          \<and> \<not> skip_row (py_strip (row_get r ''Customer'' [])) (py_strip (row_get r ''Contract Name'' []))
          \<and> process_row u p m st r = Inr st'
        \<longrightarrow> st_contracts st' \<noteq> [] \<and> matched_customer_id (last (st_contracts st')) = Some cid)"
proof -
  have 1: "match_customer m n = Some cid"
    using assms by (simp add: match_customer_def)
  have "st_contracts st' \<noteq> [] \<and> matched_customer_id (last (st_contracts st')) = Some cid"
    if "n = py_strip (row_get r ''Customer'' [])"
      and "\<not> skip_row (py_strip (row_get r ''Customer'' [])) (py_strip (row_get r ''Contract Name'' []))"
      and "process_row u p m st r = Inr st'" for st'
    using process_row_contract [OF that(3) that(2)] 1 that(1) by auto
  with 1 show ?thesis by blast
qed

text \<open>
  Claim C5. A candidate accepted by the scan either passes the containment test, with
  both names longer than 10 characters and one a substring of the other, or agrees with
  the contract name after the legal suffixes are removed. When the contract name has at
  most 10 characters, or every candidate has, containment plays no part: the scan
  returns the first candidate that agrees after the removal of the suffixes.
\<close>

theorem fuzzy_containment_threshold:
  "(fuzzy_scan c m = Some cid \<longrightarrow>
      (\<exists>s. (s, cid) \<in> set m
         \<and> ((10 < length c \<and> 10 < length s \<and> (py_in c s \<or> py_in s c))
            \<or> (strip_suffixes c \<noteq> [] \<and> strip_suffixes s = strip_suffixes c))))
   \<and> (length c \<le> 10 \<or> (\<forall>(s, i) \<in> set m. length s \<le> 10) \<longrightarrow>
        fuzzy_scan c m =
          map_option snd
            (find (\<lambda>(s, i). strip_suffixes c \<noteq> [] \<and> strip_suffixes s = strip_suffixes c) m))"
proof (intro conjI)
  show "fuzzy_scan c m = Some cid \<longrightarrow>
      (\<exists>s. (s, cid) \<in> set m
         \<and> ((10 < length c \<and> 10 < length s \<and> (py_in c s \<or> py_in s c))
            \<or> (strip_suffixes c \<noteq> [] \<and> strip_suffixes s = strip_suffixes c)))"
    by (induction m) (auto simp: Let_def split: if_splits)
  show "length c \<le> 10 \<or> (\<forall>(s, i) \<in> set m. length s \<le> 10) \<longrightarrow>
        fuzzy_scan c m =
          map_option snd
            (find (\<lambda>(s, i). strip_suffixes c \<noteq> [] \<and> strip_suffixes s = strip_suffixes c) m)"
    by (induction m) (auto simp: Let_def)
qed

lemma load_customer_row_index:
  "map_of (snd (load_customer_row st r)) =
     (if py_strip (row_get r ''Customer ID'' []) = [] \<or> py_strip (row_get r ''Customer'' []) = []
      then map_of (snd st)
      else (map_of (snd st))
             (clean_company_name (Some (py_strip (row_get r ''Customer'' [])))
                \<mapsto> py_strip (row_get r ''Customer ID'' [])))"
  by (cases st) (simp add: load_customer_row_def Let_def update_conv')

lemma foldl_load_keeps:
  assumes "\<forall>r' \<in> set later.
             py_strip (row_get r' ''Customer ID'' []) \<noteq> [] \<and> py_strip (row_get r' ''Customer'' []) \<noteq> []
             \<longrightarrow> clean_company_name (Some (py_strip (row_get r' ''Customer'' []))) \<noteq> key"
  shows "map_of (snd (foldl load_customer_row st later)) key = map_of (snd st) key"
  using assms
  by (induction later arbitrary: st) (auto simp: load_customer_row_index)

text \<open>
  Claim C6. The index maps a normalized name to the identifier of the last loaded
  customer with that name: if no loaded row behind \<open>r\<close> has the normalized name of
  \<open>r\<close>, the index maps that name to the identifier of \<open>r\<close>, whatever was loaded
  before, and the matcher resolves every name that normalizes to it to this customer.
\<close>

theorem index_last_write_wins:
  assumes "py_strip (row_get r ''Customer ID'' []) \<noteq> []"
    and "py_strip (row_get r ''Customer'' []) \<noteq> []"
    and "\<forall>r' \<in> set later.
             py_strip (row_get r' ''Customer ID'' []) \<noteq> [] \<and> py_strip (row_get r' ''Customer'' []) \<noteq> []
             \<longrightarrow> clean_company_name (Some (py_strip (row_get r' ''Customer'' [])))
                   \<noteq> clean_company_name (Some (py_strip (row_get r ''Customer'' [])))"
  shows "map_of (snd (load_customers (earlier @ r # later)))
             (clean_company_name (Some (py_strip (row_get r ''Customer'' []))))
           = Some (py_strip (row_get r ''Customer ID'' []))
    \<and> (\<forall>n. clean_company_name (Some n) = clean_company_name (Some (py_strip (row_get r ''Customer'' [])))
          \<longrightarrow> match_customer (snd (load_customers (earlier @ r # later))) n
                = Some (py_strip (row_get r ''Customer ID'' [])))"
proof -
  have "map_of (snd (load_customers (earlier @ r # later)))
             (clean_company_name (Some (py_strip (row_get r ''Customer'' []))))
           = Some (py_strip (row_get r ''Customer ID'' []))"
    using assms by (simp add: load_customers_def foldl_load_keeps load_customer_row_index)
  then show ?thesis by (simp add: match_customer_def)
qed

section \<open>The example run\<close>

lemma example_run_value:
  "(case example_run of
      Inl e \<Rightarrow> None
    | Inr (cs, ks) \<Rightarrow>
        Some (map (\<lambda>(cid, c). (cid, total_contract_value c, map contract_name (contracts c))) cs,
              map (\<lambda>k. (contract_name k, contract_status k, matched_customer_id k)) ks))
   = Some ([(''C1'', Fin 0, []), (''C2'', Fin 7, [''K1'', ''K2'']), (''C3'', Fin 0, [])],
           [(''K1'', ''active'', Some ''C2''), (''K2'', ''expired'', Some ''C2''),
            (''K3'', ''active'', None)])"
  by code_simp

lemma example_run_parts:
  obtains cs ks where "example_run = Inr (cs, ks)"
    and "map (\<lambda>(cid, c). (cid, total_contract_value c, map contract_name (contracts c))) cs
           = [(''C1'', Fin 0, []), (''C2'', Fin 7, [''K1'', ''K2'']), (''C3'', Fin 0, [])]"
    and "map (\<lambda>k. (contract_name k, contract_status k, matched_customer_id k)) ks
           = [(''K1'', ''active'', Some ''C2''), (''K2'', ''expired'', Some ''C2''),
              (''K3'', ''active'', None)]"
proof (cases example_run)
  case (Inl e)
  from example_run_value have False unfolding Inl by simp
  then show ?thesis ..
next
  case (Inr p)
  obtain cs ks where p: "p = (cs, ks)" by (cases p)
  from example_run_value
  have "Some (map (\<lambda>(cid, c). (cid, total_contract_value c, map contract_name (contracts c))) cs,
              map (\<lambda>k. (contract_name k, contract_status k, matched_customer_id k)) ks)
   = Some ([(''C1'', Fin 0, []), (''C2'', Fin 7, [''K1'', ''K2'']), (''C3'', Fin 0, [])],
           [(''K1'', ''active'', Some ''C2''), (''K2'', ''expired'', Some ''C2''),
            (''K3'', ''active'', None)])"
    unfolding Inr p by (simp only: sum.case prod.case)
  then have A: "map (\<lambda>(cid, c). (cid, total_contract_value c, map contract_name (contracts c))) cs
           = [(''C1'', Fin 0, []), (''C2'', Fin 7, [''K1'', ''K2'']), (''C3'', Fin 0, [])]"
    and B: "map (\<lambda>k. (contract_name k, contract_status k, matched_customer_id k)) ks
           = [(''K1'', ''active'', Some ''C2''), (''K2'', ''expired'', Some ''C2''),
              (''K3'', ''active'', None)]"
    by (simp_all only: option.inject prod.inject)
  have "example_run = Inr (cs, ks)"
    unfolding Inr p ..
  from that [OF this A B] show ?thesis .
qed

theorem matched_customer_exists_witness:
  "map matched_customer_id (snd (projr example_run)) = [Some ''C2'', Some ''C2'', None]
   \<and> ''C2'' \<in> fst ` set (fst (load_customers example_customers))"
proof -
  from matched_customer_exists [of "\<lambda>n. ''u''" "\<lambda>s. None" example_customers example_contracts]
  obtain cs ks where r: "example_run = Inr (cs, ks)"
    and m: "\<forall>k \<in> set ks. \<forall>cid. matched_customer_id k = Some cid \<longrightarrow>
           cid \<in> fst ` set (fst (load_customers example_customers))"
    unfolding example_run_def by blast
  obtain cs' ks' where r': "example_run = Inr (cs', ks')"
    and v: "map (\<lambda>k. (contract_name k, contract_status k, matched_customer_id k)) ks'
           = [(''K1'', ''active'', Some ''C2''), (''K2'', ''expired'', Some ''C2''),
              (''K3'', ''active'', None)]"
    by (rule example_run_parts)
  from trans [OF sym [OF r] r'] have ks: "ks' = ks" by simp
  have "map matched_customer_id ks
          = map (\<lambda>(n, s, i). i) (map (\<lambda>k. (contract_name k, contract_status k, matched_customer_id k)) ks)"
    by (simp add: comp_def)
  also have "\<dots> = map (\<lambda>(n, s, i). i) [(''K1'', ''active'', Some ''C2''), (''K2'', ''expired'', Some ''C2''),
              (''K3'', ''active'', None)]"
    using v unfolding ks by (rule arg_cong)
  finally have e: "map matched_customer_id ks = [Some ''C2'', Some ''C2'', None]"
    by simp
  then obtain k where "k \<in> set ks" and "matched_customer_id k = Some ''C2''"
    by (cases ks) auto
  with m have "''C2'' \<in> fst ` set (fst (load_customers example_customers))"
    by blast
  with e show ?thesis unfolding r by simp
qed

theorem total_contract_value_is_active_sum_witness:
  "map (\<lambda>(cid, c). (cid, total_contract_value c, sum_active_values (contracts c),
          map contract_name (contracts c))) (fst (projr example_run))
     = [(''C1'', Fin 0, Fin 0, []), (''C2'', Fin 7, Fin 7, [''K1'', ''K2'']), (''C3'', Fin 0, Fin 0, [])]"
proof -
  from total_contract_value_is_active_sum
         [of "\<lambda>n. ''u''" "\<lambda>s. None" example_customers example_contracts]
  obtain cs ks where r: "example_run = Inr (cs, ks)"
    and t: "\<forall>(cid, c) \<in> set cs.
           contracts c = filter (\<lambda>k. matched_customer_id k = Some cid) ks
           \<and> total_contract_value c = sum_active_values (contracts c)"
    unfolding example_run_def by blast
  obtain cs' ks' where r': "example_run = Inr (cs', ks')"
    and v: "map (\<lambda>(cid, c). (cid, total_contract_value c, map contract_name (contracts c))) cs'
           = [(''C1'', Fin 0, []), (''C2'', Fin 7, [''K1'', ''K2'']), (''C3'', Fin 0, [])]"
    by (rule example_run_parts)
  from trans [OF sym [OF r] r'] have cs: "cs' = cs" by simp
  from t have "map (\<lambda>(cid, c). (cid, total_contract_value c, sum_active_values (contracts c),
          map contract_name (contracts c))) cs
     = map (\<lambda>(cid, c). (cid, total_contract_value c, total_contract_value c,
          map contract_name (contracts c))) cs"
    by auto
  also have "\<dots> = map (\<lambda>(cid, v, ns). (cid, v, v, ns))
      (map (\<lambda>(cid, c). (cid, total_contract_value c, map contract_name (contracts c))) cs)"
    by (simp add: case_prod_unfold)
  also have "\<dots> = map (\<lambda>(cid, v, ns). (cid, v, v, ns))
      [(''C1'', Fin 0, []), (''C2'', Fin 7, [''K1'', ''K2'']), (''C3'', Fin 0, [])]"
    using v unfolding cs by (rule arg_cong)
  also have "\<dots> = [(''C1'', Fin 0, Fin 0, []), (''C2'', Fin 7, Fin 7, [''K1'', ''K2'']), (''C3'', Fin 0, Fin 0, [])]"
    by simp
  finally show ?thesis unfolding r by simp
qed

theorem exact_match_precedence_witness:
  "map_of [(''ACME HOLDINGS LLC'', ''1''), (''ACME HOLDINGS'', ''2'')]
       (clean_company_name (Some ''Acme Holdings'')) = Some ''2''
   \<and> fuzzy_scan (clean_company_name (Some ''Acme Holdings''))
         [(''ACME HOLDINGS LLC'', ''1''), (''ACME HOLDINGS'', ''2'')] = Some ''1''
   \<and> match_customer [(''ACME HOLDINGS LLC'', ''1''), (''ACME HOLDINGS'', ''2'')] ''Acme Holdings''
       = Some ''2''"
proof -
  have h: "map_of [(''ACME HOLDINGS LLC'', ''1''), (''ACME HOLDINGS'', ''2'')]
       (clean_company_name (Some ''Acme Holdings'')) = Some ''2''"
    by code_simp
  have f: "fuzzy_scan (clean_company_name (Some ''Acme Holdings''))
         [(''ACME HOLDINGS LLC'', ''1''), (''ACME HOLDINGS'', ''2'')] = Some ''1''"
    by code_simp
  from exact_match_precedence [OF h]
  have m: "match_customer [(''ACME HOLDINGS LLC'', ''1''), (''ACME HOLDINGS'', ''2'')] ''Acme Holdings''
       = Some ''2''"
    by (rule conjunct1)
  show ?thesis by (intro conjI h f m)
qed

theorem fuzzy_containment_threshold_witness:
  "py_in ''AB'' ''ABC'' \<and> fuzzy_scan ''AB'' [(''ABC'', ''1'')] = None
   \<and> fuzzy_scan ''ACME HOLDINGS'' [(''ACME HOLDINGS LLC'', ''1'')] = Some ''1''
   \<and> 10 < length ''ACME HOLDINGS'' \<and> 10 < length ''ACME HOLDINGS LLC''
   \<and> py_in ''ACME HOLDINGS'' ''ACME HOLDINGS LLC''
   \<and> strip_suffixes ''ACME HOLDINGS LLC'' = ''ACME HOLDINGS''"
proof -
  have 1: "py_in ''AB'' ''ABC''" by code_simp
  have 2: "length ''AB'' \<le> 10 \<or> (\<forall>(s, i) \<in> set [(''ABC'', ''1'')]. length s \<le> 10)"
    by simp
  have 3: "find (\<lambda>(s, i). strip_suffixes ''AB'' \<noteq> [] \<and> strip_suffixes s = strip_suffixes ''AB'')
             [(''ABC'', ''1'')] = None"
    by code_simp
  have "fuzzy_scan ''AB'' [(''ABC'', ''1'')] =
          map_option snd
            (find (\<lambda>(s, i). strip_suffixes ''AB'' \<noteq> [] \<and> strip_suffixes s = strip_suffixes ''AB'')
               [(''ABC'', ''1'')])"
    by (rule fuzzy_containment_threshold
          [of "''AB''" "[(''ABC'', ''1'')]" "''1''", THEN conjunct2, THEN mp, OF 2])
  also have "\<dots> = None"
    by (simp only: 3 option.map)
  finally have 4: "fuzzy_scan ''AB'' [(''ABC'', ''1'')] = None" .
  have 5: "fuzzy_scan ''ACME HOLDINGS'' [(''ACME HOLDINGS LLC'', ''1'')] = Some ''1''"
    by code_simp
  have 6: "py_in ''ACME HOLDINGS'' ''ACME HOLDINGS LLC''" by code_simp
  have 7: "strip_suffixes ''ACME HOLDINGS LLC'' = ''ACME HOLDINGS''" by code_simp
  have 8: "10 < length ''ACME HOLDINGS''" and 9: "10 < length ''ACME HOLDINGS LLC''"
    by simp_all
  show ?thesis by (intro conjI 1 4 5 6 7 8 9)
qed

theorem index_last_write_wins_witness:
  "clean_company_name (Some (py_strip (row_get example_customer_1 ''Customer'' []))) = ''ACME CORPORATION''
   \<and> clean_company_name (Some (py_strip (row_get example_customer_2 ''Customer'' []))) = ''ACME CORPORATION''
   \<and> py_strip (row_get example_customer_2 ''Customer ID'' []) = ''C2''
   \<and> map_of (snd (load_customers [example_customer_1, example_customer_2, example_customer_3]))
        ''ACME CORPORATION'' = Some ''C2''
   \<and> match_customer (snd (load_customers [example_customer_1, example_customer_2, example_customer_3]))
        ''Acme Corp'' = Some ''C2''"
proof -
  have n1: "clean_company_name (Some (py_strip (row_get example_customer_1 ''Customer'' []))) = ''ACME CORPORATION''"
    by code_simp
  have n2: "clean_company_name (Some (py_strip (row_get example_customer_2 ''Customer'' []))) = ''ACME CORPORATION''"
    by code_simp
  have i2: "py_strip (row_get example_customer_2 ''Customer ID'' []) = ''C2''"
    by code_simp
  have a: "py_strip (row_get example_customer_2 ''Customer ID'' []) \<noteq> []"
    by code_simp
  have b: "py_strip (row_get example_customer_2 ''Customer'' []) \<noteq> []"
    by code_simp
  have n3: "clean_company_name (Some (py_strip (row_get example_customer_3 ''Customer'' [])))
              \<noteq> clean_company_name (Some (py_strip (row_get example_customer_2 ''Customer'' [])))"
    by code_simp
  have c: "\<forall>r' \<in> set [example_customer_3].
             py_strip (row_get r' ''Customer ID'' []) \<noteq> [] \<and> py_strip (row_get r' ''Customer'' []) \<noteq> []
             \<longrightarrow> clean_company_name (Some (py_strip (row_get r' ''Customer'' [])))
                   \<noteq> clean_company_name (Some (py_strip (row_get example_customer_2 ''Customer'' [])))"
    using n3 by simp
  have k: "clean_company_name (Some ''Acme Corp'') = ''ACME CORPORATION''"
    by code_simp
  note t = index_last_write_wins [OF a b c, of "[example_customer_1]"]
  from t have "map_of (snd (load_customers ([example_customer_1] @ example_customer_2 # [example_customer_3])))
             (clean_company_name (Some (py_strip (row_get example_customer_2 ''Customer'' []))))
           = Some (py_strip (row_get example_customer_2 ''Customer ID'' []))"
    by (rule conjunct1)
  then have 1: "map_of (snd (load_customers [example_customer_1, example_customer_2, example_customer_3]))
        ''ACME CORPORATION'' = Some ''C2''"
    unfolding n2 i2 by simp
  from t have "clean_company_name (Some ''Acme Corp'')
                 = clean_company_name (Some (py_strip (row_get example_customer_2 ''Customer'' [])))
          \<longrightarrow> match_customer (snd (load_customers ([example_customer_1] @ example_customer_2 # [example_customer_3]))) ''Acme Corp''
                = Some (py_strip (row_get example_customer_2 ''Customer ID'' []))"
    by (rule conjunct2 [THEN spec])
  then have 2: "match_customer (snd (load_customers [example_customer_1, example_customer_2, example_customer_3]))
        ''Acme Corp'' = Some ''C2''"
    unfolding n2 i2 k by simp
  show ?thesis by (intro conjI n1 n2 i2 1 2)
qed

theorem contract_status_active_or_expired_witness:
  "\<not> skip_row (py_strip (row_get example_contract_1 ''Customer'' []))
        (py_strip (row_get example_contract_1 ''Contract Name'' []))
   \<and> py_lower (py_strip (row_get example_contract_1 ''Status'' [])) = ''active''
   \<and> map contract_status
        (st_contracts (projr (process_row (\<lambda>n. ''u'') (\<lambda>s. None) [] empty_state example_contract_1)))
       = [''active'']
   \<and> snd (projr example_run) \<noteq> []
   \<and> list_all (\<lambda>k. contract_status k = ''active'' \<or> contract_status k = ''expired'')
        (snd (projr example_run))"
proof -
  let ?p = "process_row (\<lambda>n. ''u'') (\<lambda>s. None) [] empty_state example_contract_1"
  have ns: "\<not> skip_row (py_strip (row_get example_contract_1 ''Customer'' []))
        (py_strip (row_get example_contract_1 ''Contract Name'' []))"
    by code_simp
  have la: "py_lower (py_strip (row_get example_contract_1 ''Status'' [])) = ''active''"
    by code_simp
  have "\<not> isl ?p"
    by code_simp
  then have pr: "?p = Inr (projr ?p)"
    by simp
  note t = contract_status_active_or_expired
             [of "\<lambda>n. ''u''" "\<lambda>s. None" "[]" empty_state example_contract_1
                 example_customers example_contracts]
  from t have "?p = Inr (projr ?p) \<and> \<not> skip_row (py_strip (row_get example_contract_1 ''Customer'' []))
        (py_strip (row_get example_contract_1 ''Contract Name'' []))
      \<longrightarrow> (\<exists>k. st_contracts (projr ?p) = st_contracts empty_state @ [k]
             \<and> (contract_status k = ''active'' \<or> contract_status k = ''expired'')
             \<and> (contract_status k = ''active''
                  \<longleftrightarrow> py_lower (py_strip (row_get example_contract_1 ''Status'' [])) = ''active''))"
    by (rule conjunct1 [THEN spec])
  with pr ns la obtain k where "st_contracts (projr ?p) = st_contracts empty_state @ [k]"
    and "contract_status k = ''active''"
    by blast
  then have 1: "map contract_status (st_contracts (projr ?p)) = [''active'']"
    by (simp add: empty_state_def)
  obtain cs ks where r: "example_run = Inr (cs, ks)"
    and v: "map (\<lambda>k. (contract_name k, contract_status k, matched_customer_id k)) ks
           = [(''K1'', ''active'', Some ''C2''), (''K2'', ''expired'', Some ''C2''),
              (''K3'', ''active'', None)]"
    by (rule example_run_parts)
  from v have 2: "ks \<noteq> []" by auto
  from t have "\<forall>cs ks. run (\<lambda>n. ''u'') (\<lambda>s. None) example_customers example_contracts = Inr (cs, ks)
      \<longrightarrow> (\<forall>k \<in> set ks. contract_status k = ''active'' \<or> contract_status k = ''expired'')"
    by (rule conjunct2)
  with r have 3: "list_all (\<lambda>k. contract_status k = ''active'' \<or> contract_status k = ''expired'') ks"
    unfolding example_run_def list_all_iff by blast
  from 2 3 have 4: "snd (projr example_run) \<noteq> []"
    and 5: "list_all (\<lambda>k. contract_status k = ''active'' \<or> contract_status k = ''expired'')
        (snd (projr example_run))"
    unfolding r by simp_all
  show ?thesis by (intro conjI ns la 1 4 5)
qed

end
